theory Spec2Isabelle
  imports Main "HOL-Library.AList"
begin

section \<open>JavaScript values\<close>

text \<open>
  Tool arguments are opaque JSON values. An object is an association list in insertion
  order; \<open>AList.update\<close> is property assignment (an existing key keeps its place, a new
  key goes to the end) and \<open>map_of\<close> is property lookup.
\<close>

datatype json =
    JNull
  | JBool bool
  | JNum int
  | JStr string
  | JArr "json list"
  | JObj "(string \<times> json) list"

text \<open>JavaScript truthiness of a JSON value.\<close>

fun truthy :: "json \<Rightarrow> bool" where
  "truthy JNull = False"
| "truthy (JBool b) = b"
| "truthy (JNum n) = (n \<noteq> 0)"
| "truthy (JStr s) = (s \<noteq> [])"
| "truthy (JArr xs) = True"
| "truthy (JObj kvs) = True"

text \<open>
  \<open>v.k\<close> for a key that is no built-in property: \<open>None\<close> is \<open>undefined\<close>. Only an object
  has own properties of that kind.
\<close>

fun getProp :: "json \<Rightarrow> string \<Rightarrow> json option" where
  "getProp (JObj kvs) k = map_of kvs k"
| "getProp v k = None"

text \<open>\<open>v.k = x\<close>; on a primitive the assignment is dropped.\<close>

fun setProp :: "json \<Rightarrow> string \<Rightarrow> json \<Rightarrow> json" where
  "setProp (JObj kvs) k x = JObj (AList.update k x kvs)"
| "setProp v k x = v"

text \<open>\<open>Array.isArray(v)\<close> of a possibly undefined value.\<close>

fun isArray :: "json option \<Rightarrow> bool" where
  "isArray (Some (JArr xs)) = True"
| "isArray v = False"

text \<open>\<open>typeof v[0] === "string"\<close> for an array \<open>v\<close>.\<close>

fun firstIsString :: "json option \<Rightarrow> bool" where
  "firstIsString (Some (JArr (JStr s # xs))) = True"
| "firstIsString v = False"

text \<open>\<open>s.startsWith(p)\<close> and \<open>s.includes(sub)\<close>.\<close>

definition startsWith :: "string \<Rightarrow> string \<Rightarrow> bool" where
  "startsWith s p = (take (length p) s = p)"

fun includesStr :: "string \<Rightarrow> string \<Rightarrow> bool" where
  "includesStr [] sub = (sub = [])"
| "includesStr (c # cs) sub = (startsWith (c # cs) sub \<or> includesStr cs sub)"

section \<open>The parameter-correction interceptor\<close>

text \<open>
  The loop interceptor registered under the name \<open>fix-firecrawl-search\<close>: its
  \<open>onToolCall\<close> receives the tool call and returns it, with \<open>args.sources\<close> replaced by
  \<open>[{ type: "web" }]\<close> when the tool is \<open>firecrawl_search\<close>, the arguments are truthy,
  \<open>sources\<close> is an array and its first element is a string.
\<close>

record toolCall =
  name :: string
  args :: json

definition webSources :: json where
  "webSources = JArr [JObj [(''type'', JStr ''web'')]]"

definition onToolCall :: "toolCall \<Rightarrow> toolCall" where
  "onToolCall tc =
     (if name tc = ''firecrawl_search'' \<and> truthy (args tc) then
        (if isArray (getProp (args tc) ''sources'')
            \<and> firstIsString (getProp (args tc) ''sources'')
         then tc\<lparr>args := setProp (args tc) ''sources'' webSources\<rparr>
         else tc)
      else tc)"

text \<open>The deprecated shape the rewrite looks for, and the shape it produces.\<close>

definition deprecatedSources :: "toolCall \<Rightarrow> bool" where
  "deprecatedSources tc =
     (name tc = ''firecrawl_search'' \<and> truthy (args tc)
      \<and> isArray (getProp (args tc) ''sources'')
      \<and> firstIsString (getProp (args tc) ''sources''))"

fun isTypeObject :: "json \<Rightarrow> bool" where
  "isTypeObject (JObj [(k, JStr s)]) = (k = ''type'')"
| "isTypeObject v = False"

definition correctSources :: "toolCall \<Rightarrow> bool" where
  "correctSources tc =
     (case getProp (args tc) ''sources'' of
        Some (JArr xs) \<Rightarrow> list_all isTypeObject xs
      | _ \<Rightarrow> False)"

section \<open>Numbers of the progress estimate\<close>

text \<open>
  Budgets, counters and clock readings are integers (below \<open>2^53\<close> in size, so that a
  JavaScript number holds them exactly). Their quotients are double-precision numbers:
  \<open>a / b\<close> and \<open>x * 100\<close> are each rounded to the nearest number with a mantissa of 53
  bits, a tie to the even mantissa. A positive double is kept as its mantissa \<open>m\<close> and
  exponent \<open>e\<close>, standing for \<open>m * 2^e\<close>. The quotients that occur are far from the
  largest and the smallest doubles, so neither overflow nor subnormal numbers are
  modelled.
\<close>

text \<open>
  Bringing a positive fraction \<open>n / d\<close>, scaled by \<open>2^e\<close>, to a mantissa between \<open>2^52\<close>
  and \<open>2^53\<close>: \<open>shrink\<close> halves it while it is \<open>2^53\<close> or more, \<open>grow\<close> doubles it while
  it is below \<open>2^52\<close>, each adjusting the exponent.
\<close>

function shrink :: "int \<Rightarrow> int \<Rightarrow> int \<Rightarrow> int \<times> int \<times> int" where
  "shrink n d e =
     (if 0 < d \<and> 9007199254740992 * d \<le> n then shrink n (2 * d) (e + 1) else (n, d, e))"
  by pat_completeness auto
termination
proof (relation "measure (\<lambda>(n, d, e). nat (n div d))")
  show "wf (measure (\<lambda>(n, d, e). nat (n div d)))" by simp
next
  fix n d e :: int
  assume a: "0 < d \<and> 9007199254740992 * d \<le> n"
  then have big: "9007199254740992 \<le> n div d"
    by (metis mult.commute pos_imp_zdiv_nonneg_iff zdiv_mono1 nonzero_mult_div_cancel_right
        less_irrefl)
  have "n div (2 * d) = (n div d) div 2"
    by (simp add: mult.commute zdiv_zmult2_eq)
  with big show "((n, 2 * d, e + 1), (n, d, e)) \<in> measure (\<lambda>(n, d, e). nat (n div d))"
    by simp
qed

function grow :: "int \<Rightarrow> int \<Rightarrow> int \<Rightarrow> int \<times> int \<times> int" where
  "grow n d e =
     (if 0 < n \<and> n < 4503599627370496 * d then grow (2 * n) d (e - 1) else (n, d, e))"
  by pat_completeness auto
termination
  by (relation "measure (\<lambda>(n, d, e). nat (4503599627370496 * d - n))") auto

declare shrink.simps [simp del] grow.simps [simp del]

text \<open>The integer nearest to \<open>n / d\<close>, a tie going to the even one.\<close>

definition nearestEven :: "int \<Rightarrow> int \<Rightarrow> int" where
  "nearestEven n d =
     (if 2 * (n mod d) < d then n div d
      else if d < 2 * (n mod d) then n div d + 1
      else if even (n div d) then n div d else n div d + 1)"

text \<open>The double nearest to the positive number \<open>n / d * 2^e\<close>, as mantissa and
  exponent.\<close>

definition toDouble :: "int \<Rightarrow> int \<Rightarrow> int \<Rightarrow> int \<times> int" where
  "toDouble n d e =
     (case shrink n d e of (n1, d1, e1) \<Rightarrow>
        (case grow n1 d1 e1 of (n2, d2, e2) \<Rightarrow> (nearestEven n2 d2, e2)))"

text \<open>\<open>Math.round\<close> of the double \<open>m * 2^e\<close> (\<open>m\<close> with its sign): the nearest integer, a
  half upwards, that is the floor of the value plus one half.\<close>

definition roundHalfUp :: "int \<Rightarrow> int \<Rightarrow> int" where
  "roundHalfUp m e =
     (if 0 \<le> e then m * 2 ^ nat e else (2 * m + 2 ^ nat (- e)) div 2 ^ nat (1 - e))"

text \<open>What \<open>Math.round\<close> gives that is no integer: a quotient by a zero timeout is
  \<open>Infinity\<close>, \<open>-Infinity\<close> or \<open>NaN\<close>, which \<open>Math.round\<close> returns unchanged.\<close>

datatype jsnum = Fin int | PosInf | NegInf | NaN

text \<open>\<open>Math.round(a / b * 100)\<close>: the quotient rounded to a double, its product with 100
  rounded to a double, and that rounded to an integer.\<close>

definition roundPct :: "int \<Rightarrow> int \<Rightarrow> jsnum" where
  "roundPct a b =
     (if b = 0 then (if 0 < a then PosInf else if a < 0 then NegInf else NaN)
      else if a = 0 then Fin 0
      else case toDouble \<bar>a\<bar> \<bar>b\<bar> 0 of (m, e) \<Rightarrow>
             (case toDouble (100 * m) 1 e of (m', e') \<Rightarrow>
                Fin (roundHalfUp (sgn a * sgn b * m') e')))"

text \<open>\<open>x + y\<close> for an integer \<open>x\<close>, and \<open>Math.min(95, y)\<close>.\<close>

fun jsAdd :: "int \<Rightarrow> jsnum \<Rightarrow> jsnum" where
  "jsAdd x (Fin y) = Fin (x + y)"
| "jsAdd x PosInf = PosInf"
| "jsAdd x NegInf = NegInf"
| "jsAdd x NaN = NaN"

fun min95 :: "jsnum \<Rightarrow> jsnum" where
  "min95 (Fin y) = Fin (min 95 y)"
| "min95 PosInf = Fin 95"
| "min95 NegInf = NegInf"
| "min95 NaN = NaN"

section \<open>Data of a run\<close>

datatype mode = Quick | Deep

text \<open>The global \<open>CONFIG\<close>, read from the process environment with \<open>parseInt\<close>; the
  values are taken to be integers.\<close>

record config =
  MAX_TOOL_CALLS :: int
  MAX_ITERATIONS :: int
  TIMEOUT_MS :: int

text \<open>The caller's \<open>options\<close>; every field may be absent.\<close>

record options =
  allowWebTools :: "bool option"
  previousProgress :: "int option"
  requireToolApproval :: "bool option"

text \<open>
  An entry of the \<open>pendingApprovals\<close> table (its optional \<open>resolve\<close> callback is never
  set) and one of the \<open>approvedTools\<close> table. Field names that several of the source's
  objects share carry a prefix here: \<open>pa_\<close> for a pending approval, \<open>err_\<close> for a
  \<open>PendingApprovalError\<close>, \<open>res_\<close> for the result.
\<close>

record pendingApproval =
  pa_approvalId :: string
  pa_sessionId :: string
  pa_toolName :: string
  pa_toolArgs :: json
  pa_timestamp :: int

record decision =
  approved :: bool
  dec_timestamp :: int

text \<open>The fields of a \<open>PendingApprovalError\<close>.\<close>

record pendingApprovalError =
  err_approvalId :: string
  err_toolName :: string
  err_toolArgs :: json
  err_sessionId :: string
  err_checkpointId :: "string option"

text \<open>
  The parameters of \<open>runAnalysis\<close> that its control flow reads (the idea text, the
  language, the persona and the model only shape the prompt). Both tables are
  insertion-ordered maps (\<open>Map.set\<close> is \<open>AList.update\<close>, \<open>Map.get\<close> is \<open>map_of\<close>) and
  both may be absent, as in the call that re-analyses a stored report; \<open>approvedTools\<close>
  is only read by a run, \<open>pendingApprovals\<close> is written and therefore part of the state
  below.
\<close>

record params =
  CONFIG :: config
  mode :: mode
  sessionId :: "string option"
  options :: options
  approvedTools :: "(string \<times> decision) list option"

definition allowWebToolsOf :: "params \<Rightarrow> bool" where
  "allowWebToolsOf p = (case allowWebTools (options p) of None \<Rightarrow> True | Some b \<Rightarrow> b)"

definition previousProgressOf :: "params \<Rightarrow> int" where
  "previousProgressOf p = (case previousProgress (options p) of None \<Rightarrow> 0 | Some n \<Rightarrow> n)"

definition requireToolApprovalOf :: "params \<Rightarrow> bool" where
  "requireToolApprovalOf p =
     (case requireToolApproval (options p) of None \<Rightarrow> False | Some b \<Rightarrow> b)"

definition maxToolCalls :: "params \<Rightarrow> int" where
  "maxToolCalls p =
     (if \<not> allowWebToolsOf p then 0
      else if mode p = Quick then MAX_TOOL_CALLS (CONFIG p) else 999)"

definition timeout :: "params \<Rightarrow> int" where
  "timeout p = (if mode p = Quick then TIMEOUT_MS (CONFIG p) else 300000)"

text \<open>
  What one turn of the loop reads from outside: the clock at the head of the body
  (\<open>Date.now() - startTime\<close>), what \<open>createCheckpoint\<close> gives if the turn calls it (the new
  checkpoint's id, \<open>None\<close> when it throws), the text that follows \<open>approval_\<close> in a newly
  generated approval id (the time, an underscore and nine random base-36 digits), and
  \<open>new Date()\<close>.
\<close>

record readings =
  elapsed :: int
  created :: "string option"
  idSuffix :: string
  now :: int

text \<open>
  The events of the stream. A \<open>tool_use\<close> event carries its \<open>toolName\<close> (a string when
  present) and the four fields the arguments may sit in (\<open>toolArgs\<close>, \<open>arguments\<close>,
  \<open>args\<close>, \<open>input\<close>; \<open>None\<close> is \<open>undefined\<close>); an \<open>error\<close> event the text that
  \<open>event.error?.message || String(event.error || "")\<close> gives; a \<open>message\<close> event the role
  and the content parts, of which only the text parts matter.
\<close>

datatype content = Text string | NonText

datatype event =
    ToolUse "string option" "json option" "json option" "json option" "json option"
  | ErrorEvent string
  | Message string "content list"
  | OtherEvent

text \<open>An item of the stream: the next event, or the iterator throws
  (\<open>True\<close>: a \<open>TaskConcurrencyError\<close>).\<close>

datatype item = Yield readings event | Raise bool

datatype ckptKind = ApprovalCkpt | FallbackCkpt | AutoCkpt

text \<open>What a run does to the outside, in order: the limit warning on the console and the
  calls of \<open>createCheckpoint\<close>.\<close>

datatype effect = LimitWarning | CreateCheckpoint ckptKind

text \<open>The local variables of \<open>runAnalysis\<close>, the pending table and the effects so far.\<close>

record state =
  toolCallCount :: nat
  hasWarned :: bool
  interrupted :: bool
  lastCheckpointId :: "string option"
  finalOutput :: string
  pendingApprovals :: "(string \<times> pendingApproval) list option"
  effects :: "effect list"

text \<open>
  How one turn of the loop body ends: at its end (\<open>Next\<close>), at one of the three
  \<open>continue\<close> statements (a rejected gated call, a call over the budget, an error event),
  at the \<open>break\<close> of the timeout, or at a \<open>throw\<close>. The tools themselves are run by the
  agent that produces the stream; for a \<open>tool_use\<close> event the loop decides only whether
  its turn is cut short by a \<open>continue\<close> (the call is skipped), ends the run, or goes
  through to the end of the body (the call proceeds).
\<close>

datatype flow =
    Next
  | ContinueRejected
  | ContinueOverBudget
  | ContinueError
  | Break
  | Throw pendingApprovalError

section \<open>The loop body of runAnalysis\<close>

text \<open>\<open>a ?? b ?? c ?? d ?? null\<close>: the first candidate that is neither \<open>undefined\<close> nor
  \<open>null\<close>.\<close>

fun nullish :: "json option \<Rightarrow> bool" where
  "nullish None = True"
| "nullish (Some JNull) = True"
| "nullish (Some v) = False"

definition extractArgs ::
  "json option \<Rightarrow> json option \<Rightarrow> json option \<Rightarrow> json option \<Rightarrow> json" where
  "extractArgs a b c d =
     (if \<not> nullish a then the a
      else if \<not> nullish b then the b
      else if \<not> nullish c then the c
      else if \<not> nullish d then the d
      else JNull)"

text \<open>
  The approval interception of a \<open>tool_use\<close> event, entered after the counter was
  incremented. \<open>Next\<close> means that control reaches the budget check.
\<close>

definition approvalGate ::
  "params \<Rightarrow> readings \<Rightarrow> string option \<Rightarrow> json \<Rightarrow> state \<Rightarrow> flow \<times> state" where
  "approvalGate p r tn targs st =
     (case (tn, sessionId p, pendingApprovals st, approvedTools p) of
        (Some n, Some sid, Some pend, Some appr) \<Rightarrow>
          if requireToolApprovalOf p \<and> n \<noteq> [] \<and> startsWith n ''firecrawl_'' \<and> sid \<noteq> [] then
            (case map_of appr (sid @ '':'' @ n) of
               None \<Rightarrow>
                 (Throw \<lparr>err_approvalId = ''approval_'' @ idSuffix r, err_toolName = n,
                         err_toolArgs = targs, err_sessionId = sid,
                         err_checkpointId = created r\<rparr>,
                  st\<lparr>pendingApprovals :=
                        Some (AList.update (''approval_'' @ idSuffix r)
                          \<lparr>pa_approvalId = ''approval_'' @ idSuffix r, pa_sessionId = sid,
                           pa_toolName = n, pa_toolArgs = targs, pa_timestamp = now r\<rparr> pend),
                      effects := effects st @ [CreateCheckpoint ApprovalCkpt]\<rparr>)
             | Some d \<Rightarrow> if \<not> approved d then (ContinueRejected, st) else (Next, st))
          else (Next, st)
      | _ \<Rightarrow> (Next, st))"

text \<open>\<open>if (toolCallCount > maxToolCalls)\<close>.\<close>

definition budgetCheck :: "params \<Rightarrow> state \<Rightarrow> flow \<times> state" where
  "budgetCheck p st =
     (if int (toolCallCount st) > maxToolCalls p then
        (ContinueOverBudget,
         if \<not> hasWarned st
         then st\<lparr>hasWarned := True, interrupted := True,
                 effects := effects st @ [LimitWarning]\<rparr>
         else st)
      else (Next, st))"

text \<open>The handling of an \<open>error\<close> event.\<close>

definition errorGate :: "params \<Rightarrow> readings \<Rightarrow> string \<Rightarrow> state \<Rightarrow> flow \<times> state" where
  "errorGate p r errorMsg st =
     (case (sessionId p, pendingApprovals st, approvedTools p) of
        (Some sid, Some pend, Some appr) \<Rightarrow>
          if requireToolApprovalOf p
             \<and> (includesStr errorMsg ''firecrawl_search'' \<or> includesStr errorMsg ''firecrawl_scrape'')
             \<and> sid \<noteq> [] then
            (let n = (if includesStr errorMsg ''firecrawl_search''
                      then ''firecrawl_search'' else ''firecrawl_scrape'')
             in case map_of appr (sid @ '':'' @ n) of
                  None \<Rightarrow>
                    (Throw \<lparr>err_approvalId = ''approval_'' @ idSuffix r, err_toolName = n,
                            err_toolArgs =
                              JObj [(''note'', JStr ''Tool will be called with corrected parameters'')],
                            err_sessionId = sid, err_checkpointId = None\<rparr>,
                     st\<lparr>pendingApprovals :=
                           Some (AList.update (''approval_'' @ idSuffix r)
                             \<lparr>pa_approvalId = ''approval_'' @ idSuffix r, pa_sessionId = sid,
                              pa_toolName = n,
                              pa_toolArgs =
                                JObj [(''note'', JStr ''Tool parameters will be fixed after approval'')],
                              pa_timestamp = now r\<rparr> pend)\<rparr>)
                | Some d \<Rightarrow> (ContinueError, st))
          else (ContinueError, st)
      | _ \<Rightarrow> (ContinueError, st))"

text \<open>The text parts of a message, concatenated.\<close>

fun textOf :: "content list \<Rightarrow> string" where
  "textOf [] = []"
| "textOf (Text t # cs) = t @ textOf cs"
| "textOf (NonText # cs) = textOf cs"

text \<open>One turn of the \<open>for await\<close> loop on an event.\<close>

definition body :: "params \<Rightarrow> readings \<Rightarrow> event \<Rightarrow> state \<Rightarrow> flow \<times> state" where
  "body p r ev st =
     (if elapsed r > timeout p then (Break, st\<lparr>interrupted := True\<rparr>)
      else case ev of
        ToolUse tn a b c d \<Rightarrow>
          (case approvalGate p r tn (extractArgs a b c d)
                  (st\<lparr>toolCallCount := toolCallCount st + 1\<rparr>) of
             (Next, st') \<Rightarrow> budgetCheck p st'
           | (f, st') \<Rightarrow> (f, st'))
      | ErrorEvent errorMsg \<Rightarrow> errorGate p r errorMsg st
      | Message role cs \<Rightarrow>
          (Next, if role = ''assistant''
                 then st\<lparr>finalOutput := finalOutput st @ textOf cs\<rparr> else st)
      | OtherEvent \<Rightarrow> (Next, st))"

section \<open>The loop and the ways out of it\<close>

text \<open>How the consumption of the stream ends: the stream is exhausted, the timeout
  breaks the loop, a \<open>PendingApprovalError\<close> is thrown, or the iterator throws.\<close>

datatype stop = Exhausted | TimedOut | Suspended pendingApprovalError | Failed bool

fun consume :: "params \<Rightarrow> item list \<Rightarrow> state \<Rightarrow> stop \<times> state" where
  "consume p [] st = (Exhausted, st)"
| "consume p (Raise conc # rest) st = (Failed conc, st)"
| "consume p (Yield r ev # rest) st =
     (case body p r ev st of
        (Break, st') \<Rightarrow> (TimedOut, st')
      | (Throw e, st') \<Rightarrow> (Suspended e, st')
      | (f, st') \<Rightarrow> consume p rest st')"

text \<open>The events the loop body was entered with, each with the way its turn ended.\<close>

fun dispositions :: "params \<Rightarrow> item list \<Rightarrow> state \<Rightarrow> (event \<times> flow) list" where
  "dispositions p [] st = []"
| "dispositions p (Raise conc # rest) st = []"
| "dispositions p (Yield r ev # rest) st =
     (case body p r ev st of
        (Break, st') \<Rightarrow> [(ev, Break)]
      | (Throw e, st') \<Rightarrow> [(ev, Throw e)]
      | (f, st') \<Rightarrow> (ev, f) # dispositions p rest st')"

section \<open>runAnalysis\<close>

text \<open>What the function reads from outside after the loop: the clock when the progress
  is computed and the outcome of the one \<open>createCheckpoint\<close> call it may make there.\<close>

record finish =
  finElapsed :: int
  finCreated :: "string option"

record result =
  report :: string
  checkpointId :: "string option"
  res_interrupted :: bool
  progress :: jsnum
  needsApproval :: "bool option"
  approvalId :: "string option"
  toolName :: "string option"
  toolArgs :: "json option"

datatype failure = ServerBusy | Rethrown

text \<open>\<open>agent.runTask\<close> throws at once (\<open>True\<close>: a \<open>TaskConcurrencyError\<close>) or returns the
  stream.\<close>

datatype source = Refused bool | Stream "item list"

definition initial :: "(string \<times> pendingApproval) list option \<Rightarrow> state" where
  "initial pend =
     \<lparr>toolCallCount = 0, hasWarned = False, interrupted = False, lastCheckpointId = None,
      finalOutput = [], pendingApprovals = pend, effects = []\<rparr>"

text \<open>A string variable that may be \<open>undefined\<close>, used as a condition.\<close>

fun truthyStr :: "string option \<Rightarrow> bool" where
  "truthyStr None = False"
| "truthyStr (Some s) = (s \<noteq> [])"

text \<open>\<open>try { lastCheckpointId = (await createCheckpoint(..)).id } catch {}\<close>.\<close>

definition saveCheckpoint :: "ckptKind \<Rightarrow> finish \<Rightarrow> state \<Rightarrow> state" where
  "saveCheckpoint k fin st =
     st\<lparr>effects := effects st @ [CreateCheckpoint k],
        lastCheckpointId :=
          (case finCreated fin of Some c \<Rightarrow> Some c | None \<Rightarrow> lastCheckpointId st)\<rparr>"

text \<open>The \<open>catch\<close> branch of a \<open>PendingApprovalError\<close>.\<close>

definition approvalResponse ::
  "params \<Rightarrow> finish \<Rightarrow> pendingApprovalError \<Rightarrow> state \<Rightarrow> result \<times> state" where
  "approvalResponse p fin e st =
     (let st' = (if truthyStr (err_checkpointId e) then st
                 else saveCheckpoint FallbackCkpt fin st)
      in (\<lparr>report = finalOutput st',
           checkpointId = (if truthyStr (err_checkpointId e) then err_checkpointId e
                           else lastCheckpointId st'),
           res_interrupted = True,
           progress = roundPct (finElapsed fin) (timeout p),
           needsApproval = Some True,
           approvalId = Some (err_approvalId e),
           toolName = Some (err_toolName e),
           toolArgs = Some (err_toolArgs e)\<rparr>, st'))"

text \<open>The code after the \<open>try\<close>: the automatic checkpoint and the progress.\<close>

definition progressPct :: "params \<Rightarrow> finish \<Rightarrow> state \<Rightarrow> jsnum" where
  "progressPct p fin st =
     (if interrupted st then
        (if maxToolCalls p > 0
         then min95 (roundPct (int (toolCallCount st)) (maxToolCalls p))
         else min95 (jsAdd (previousProgressOf p) (roundPct (finElapsed fin) (timeout p))))
      else Fin 100)"

definition finalize :: "params \<Rightarrow> finish \<Rightarrow> state \<Rightarrow> result \<times> state" where
  "finalize p fin st =
     (let st' = (if interrupted st then saveCheckpoint AutoCkpt fin st else st)
      in (\<lparr>report = finalOutput st',
           checkpointId = lastCheckpointId st',
           res_interrupted = interrupted st',
           progress = progressPct p fin st',
           needsApproval = None, approvalId = None, toolName = None, toolArgs = None\<rparr>,
          st'))"

definition runAnalysis ::
  "params \<Rightarrow> (string \<times> pendingApproval) list option \<Rightarrow> source \<Rightarrow> finish
     \<Rightarrow> failure + result \<times> state" where
  "runAnalysis p pend src fin =
     (case src of
        Refused conc \<Rightarrow> Inl (if conc then ServerBusy else Rethrown)
      | Stream items \<Rightarrow>
          (case consume p items (initial pend) of
             (Failed True, st) \<Rightarrow> Inl ServerBusy
           | (Suspended e, st) \<Rightarrow> Inr (approvalResponse p fin e st)
           | (Failed False, st) \<Rightarrow> Inr (finalize p fin (st\<lparr>interrupted := True\<rparr>))
           | (s, st) \<Rightarrow> Inr (finalize p fin st)))"

section \<open>Recording a decision\<close>

text \<open>
  The handler of \<open>POST /api/tool-approval\<close> on the two tables: an empty approval id is
  refused, an unknown one is reported as not found, and a known one writes the decision
  under the key of its session and tool and removes the pending entry.
\<close>

datatype reply = MissingApprovalId | NotFoundOrExpired | Success

definition toolApproval ::
  "string \<Rightarrow> json \<Rightarrow> int
     \<Rightarrow> (string \<times> pendingApproval) list \<times> (string \<times> decision) list
     \<Rightarrow> reply \<times> (string \<times> pendingApproval) list \<times> (string \<times> decision) list" where
  "toolApproval aid appr stamp tables =
     (case tables of (pendingT, approvedT) \<Rightarrow>
        if aid = [] then (MissingApprovalId, pendingT, approvedT)
        else (case map_of pendingT aid of
                None \<Rightarrow> (NotFoundOrExpired, pendingT, approvedT)
              | Some pending \<Rightarrow>
                  (Success, AList.delete aid pendingT,
                   AList.update (pa_sessionId pending @ '':'' @ pa_toolName pending)
                     (decision.make (appr = JBool True) stamp) approvedT)))"

section \<open>The task lock of the server\<close>

text \<open>
  \<open>executeTask\<close> guards the runs with the flag \<open>isTaskRunning\<close> and the array
  \<open>taskQueue\<close>. JavaScript runs each piece of code between two \<open>await\<close>s to its end
  before anything else, so the scheduler is a state machine over three kinds of step: a
  call of \<open>executeTask\<close> by a request handler, the end of the body of a running task,
  and the \<open>finally\<close> block of the call that ran it. Tasks are named by numbers. Beside
  the two variables of the code the state lists the tasks whose body is executing, the
  tasks whose body has ended and whose \<open>finally\<close> block is still to come, and, as a
  history, the submissions, the starts, the completions and the resolved promises.
\<close>

record sched =
  isTaskRunning :: bool
  taskQueue :: "nat list"
  running :: "nat list"
  unwinding :: "nat list"
  submitted :: "nat list"
  deferred :: "nat list"
  started :: "nat list"
  finished :: "nat list"
  resolved :: "nat list"

definition idle :: sched where
  "idle = \<lparr>isTaskRunning = False, taskQueue = [], running = [], unwinding = [],
           submitted = [], deferred = [], started = [], finished = [], resolved = []\<rparr>"

text \<open>The synchronous part of \<open>executeTask(task)\<close>: queue the task behind a running one,
  or take the lock and start it.\<close>

definition executeTask :: "nat \<Rightarrow> sched \<Rightarrow> sched" where
  "executeTask t s =
     (if isTaskRunning s then s\<lparr>taskQueue := taskQueue s @ [t], deferred := deferred s @ [t]\<rparr>
      else s\<lparr>isTaskRunning := True, running := running s @ [t], started := started s @ [t]\<rparr>)"

text \<open>The \<open>finally\<close> block: release the lock, take the head of the queue and call
  \<open>executeTask\<close> on it.\<close>

definition finallyBlock :: "sched \<Rightarrow> sched" where
  "finallyBlock s =
     (case taskQueue s of
        [] \<Rightarrow> s\<lparr>isTaskRunning := False\<rparr>
      | nextTask # q \<Rightarrow> executeTask nextTask (s\<lparr>isTaskRunning := False, taskQueue := q\<rparr>))"

datatype action = Submit nat | Finish nat | Release nat

text \<open>
  A queued task is wrapped so that the promise given to its submitter is resolved right
  after its body; the promise of a task that started at once resolves when its call
  returns, after the \<open>finally\<close> block.
\<close>

fun step :: "sched \<Rightarrow> action \<Rightarrow> sched" where
  "step s (Submit t) = executeTask t (s\<lparr>submitted := submitted s @ [t]\<rparr>)"
| "step s (Finish t) =
     (if t \<in> set (running s)
      then s\<lparr>running := removeAll t (running s), unwinding := unwinding s @ [t],
             finished := finished s @ [t],
             resolved := (if t \<in> set (deferred s) then resolved s @ [t] else resolved s)\<rparr>
      else s)"
| "step s (Release t) =
     (if t \<in> set (unwinding s)
      then finallyBlock
             (s\<lparr>unwinding := removeAll t (unwinding s),
                resolved := (if t \<in> set (deferred s) then resolved s else resolved s @ [t])\<rparr>)
      else s)"

definition schedule :: "action list \<Rightarrow> sched" where
  "schedule acts = foldl step idle acts"

section \<open>Notions used in the statements\<close>

fun isToolUse :: "event \<Rightarrow> bool" where
  "isToolUse (ToolUse tn a b c d) = True"
| "isToolUse ev = False"

text \<open>A turn counts as a tool call when the event is a \<open>tool_use\<close> and the turn got
  past the timeout check.\<close>

fun isCall :: "event \<times> flow \<Rightarrow> bool" where
  "isCall (ev, f) = (isToolUse ev \<and> f \<noteq> Break)"

text \<open>The text an event adds to the report when its turn gets past the timeout check.\<close>

fun assistantText :: "event \<Rightarrow> string" where
  "assistantText (Message role cs) = (if role = ''assistant'' then textOf cs else [])"
| "assistantText ev = []"

fun spoken :: "event \<times> flow \<Rightarrow> string" where
  "spoken (ev, f) = (if f = Break then [] else assistantText ev)"

text \<open>The number of limit warnings among the effects, and the checkpoint calls.\<close>

definition warnings :: "state \<Rightarrow> nat" where
  "warnings st = length (filter (\<lambda>e. e = LimitWarning) (effects st))"

definition checkpointCalls :: "state \<Rightarrow> effect list" where
  "checkpointCalls st = filter (\<lambda>e. e \<noteq> LimitWarning) (effects st)"

text \<open>The flag \<open>hasWarned\<close> and the warnings emitted agree, and a warned run is
  interrupted.\<close>

definition coherent :: "state \<Rightarrow> bool" where
  "coherent st =
     ((hasWarned st \<longrightarrow> interrupted st) \<and> warnings st = (if hasWarned st then 1 else 0))"

text \<open>The number of pending approvals that a table holds for a session and a tool.\<close>

definition outstanding :: "string \<Rightarrow> string \<Rightarrow> (string \<times> pendingApproval) list \<Rightarrow> nat" where
  "outstanding sid n table =
     length (filter (\<lambda>kv. pa_sessionId (snd kv) = sid \<and> pa_toolName (snd kv) = n) table)"

text \<open>
  The states of the task lock that the steps keep to: at most one task is executing or
  unwinding, the flag is set exactly then, the queue is empty while the flag is clear,
  the starts followed by the queue are the submissions in their order, the completions
  followed by the executing task are the starts in their order, only completed tasks
  are unwinding, and, when no task was submitted twice, the resolved promises are those
  of the completed tasks that were queued or whose \<open>finally\<close> block has run.
\<close>

definition orderly :: "sched \<Rightarrow> bool" where
  "orderly s =
     (length (running s @ unwinding s) \<le> 1
      \<and> (isTaskRunning s \<longleftrightarrow> running s @ unwinding s \<noteq> [])
      \<and> (\<not> isTaskRunning s \<longrightarrow> taskQueue s = [])
      \<and> submitted s = started s @ taskQueue s
      \<and> started s = finished s @ running s
      \<and> set (unwinding s) \<subseteq> set (finished s)
      \<and> set (resolved s) \<subseteq> set (finished s)
      \<and> (distinct (submitted s) \<longrightarrow>
           set (resolved s)
             = {t \<in> set (finished s). t \<in> set (deferred s) \<or> t \<notin> set (unwinding s)}))"

section \<open>Concrete runs\<close>

text \<open>The defaults of \<open>CONFIG\<close>, and the same with a budget of one tool call.\<close>

definition defaults :: config where
  "defaults = \<lparr>MAX_TOOL_CALLS = 5, MAX_ITERATIONS = 20, TIMEOUT_MS = 120000\<rparr>"

definition tight :: config where
  "tight = \<lparr>MAX_TOOL_CALLS = 1, MAX_ITERATIONS = 20, TIMEOUT_MS = 120000\<rparr>"

text \<open>A deep run with the web tools switched off and no approval required.\<close>

definition deepNoWeb :: params where
  "deepNoWeb =
     \<lparr>CONFIG = defaults, mode = Deep, sessionId = Some ''s1'',
      options = \<lparr>allowWebTools = Some False, previousProgress = None,
                 requireToolApproval = None\<rparr>,
      approvedTools = Some []\<rparr>"

text \<open>A deep run of session \<open>s1\<close> with approval required and no decision recorded.\<close>

definition deepGated :: params where
  "deepGated =
     \<lparr>CONFIG = defaults, mode = Deep, sessionId = Some ''s1'',
      options = \<lparr>allowWebTools = None, previousProgress = None,
                 requireToolApproval = Some True\<rparr>,
      approvedTools = Some []\<rparr>"

text \<open>A quick run of session \<open>s1\<close> with a budget of one call, approval required, and the
  decision table that rejecting the pending approval \<open>approval_1_abc\<close> of
  \<open>firecrawl_search\<close> leaves.\<close>

definition askedBefore :: "(string \<times> pendingApproval) list" where
  "askedBefore =
     [(''approval_1_abc'',
       \<lparr>pa_approvalId = ''approval_1_abc'', pa_sessionId = ''s1'',
        pa_toolName = ''firecrawl_search'', pa_toolArgs = JNull, pa_timestamp = 1\<rparr>)]"

definition quickRejected :: params where
  "quickRejected =
     \<lparr>CONFIG = tight, mode = Quick, sessionId = Some ''s1'',
      options = \<lparr>allowWebTools = None, previousProgress = None,
                 requireToolApproval = Some True\<rparr>,
      approvedTools =
        Some (snd (snd (toolApproval ''approval_1_abc'' (JBool False) 2 (askedBefore, []))))\<rparr>"

text \<open>A quick run with a budget of one call and no approval required.\<close>

definition quickOpen :: params where
  "quickOpen =
     \<lparr>CONFIG = tight, mode = Quick, sessionId = Some ''s1'',
      options = \<lparr>allowWebTools = None, previousProgress = None,
                 requireToolApproval = None\<rparr>,
      approvedTools = Some []\<rparr>"

definition atStart :: readings where
  "atStart = \<lparr>elapsed = 0, created = Some ''cp1'', idSuffix = ''1_abc'', now = 1\<rparr>"

definition later :: readings where
  "later = \<lparr>elapsed = 5000, created = Some ''cp2'', idSuffix = ''2_xyz'', now = 2\<rparr>"

definition nearTimeout :: readings where
  "nearTimeout = \<lparr>elapsed = 299000, created = Some ''cp3'', idSuffix = ''3_def'', now = 3\<rparr>"

definition searchCall :: event where
  "searchCall =
     ToolUse (Some ''firecrawl_search'') None None (Some (JObj [(''query'', JStr ''crm'')])) None"

definition calcCall :: event where
  "calcCall = ToolUse (Some ''calculator'') (Some (JObj [(''expr'', JStr ''1+1'')])) None None None"

definition closing :: event where
  "closing = Message ''assistant'' [Text ''Summary.'']"

definition searchError :: event where
  "searchError = ErrorEvent ''firecrawl_search: invalid sources''"

definition onTime :: finish where
  "onTime = \<lparr>finElapsed = 6000, finCreated = Some ''cp9''\<rparr>"

definition atTimeout :: finish where
  "atTimeout = \<lparr>finElapsed = 300000, finCreated = None\<rparr>"

section \<open>Parameter correction is idempotent\<close>

lemma getProp_setProp_same:
  "getProp v k = Some y \<Longrightarrow> getProp (setProp v k x) k = Some x"
  by (cases v) (simp_all add: update_conv')

lemma firstIsString_webSources: "\<not> firstIsString (Some webSources)"
  by (simp add: webSources_def)

lemma isArray_Some: "isArray v \<Longrightarrow> \<exists>y. v = Some y"
  by (cases v) simp_all

lemma truthy_setProp: "truthy (setProp v k x) = truthy v"
  by (cases v) simp_all

lemma onToolCall_fires: "deprecatedSources tc \<Longrightarrow>
    onToolCall tc = tc\<lparr>args := setProp (args tc) ''sources'' webSources\<rparr>"
  by (simp add: onToolCall_def deprecatedSources_def)

lemma onToolCall_idle: "\<not> deprecatedSources tc \<Longrightarrow> onToolCall tc = tc"
  by (auto simp add: onToolCall_def deprecatedSources_def)

lemma not_deprecated_after: "\<not> deprecatedSources (onToolCall tc)"
proof (cases "deprecatedSources tc")
  case True
  then obtain y where y: "getProp (args tc) ''sources'' = Some y"
    using isArray_Some by (auto simp add: deprecatedSources_def)
  have "getProp (args (onToolCall tc)) ''sources'' = Some webSources"
    using True y by (simp add: onToolCall_fires getProp_setProp_same)
  then show ?thesis
    by (simp add: deprecatedSources_def firstIsString_webSources)
next
  case False
  then show ?thesis by (simp add: onToolCall_idle)
qed

lemma correct_not_deprecated: "correctSources tc \<Longrightarrow> \<not> deprecatedSources tc"
proof
  assume c: "correctSources tc" and d: "deprecatedSources tc"
  from d obtain s xs where "getProp (args tc) ''sources'' = Some (JArr (JStr s # xs))"
    by (auto simp add: deprecatedSources_def elim!: firstIsString.elims)
  with c show False by (simp add: correctSources_def)
qed

text \<open>
  C7. The sources correction of \<open>firecrawl_search\<close> is idempotent: applying it twice
  gives what applying it once gives; it changes a call only when the call has the
  deprecated shape (tool \<open>firecrawl_search\<close>, \<open>sources\<close> an array that starts with a
  string), what it writes is an array of one-key objects \<open>{type: string}\<close>, and on a
  call whose \<open>sources\<close> is already such an array it changes nothing.
\<close>

theorem onToolCall_idempotent:
  "onToolCall (onToolCall tc) = onToolCall tc
   \<and> (onToolCall tc \<noteq> tc \<longrightarrow> deprecatedSources tc \<and> correctSources (onToolCall tc))
   \<and> (correctSources tc \<longrightarrow> onToolCall tc = tc)"
proof -
  have twice: "onToolCall (onToolCall tc) = onToolCall tc"
    using not_deprecated_after [of tc] by (rule onToolCall_idle)
  have fires: "deprecatedSources tc \<and> correctSources (onToolCall tc)"
    if ne: "onToolCall tc \<noteq> tc"
  proof -
    from ne have d: "deprecatedSources tc" using onToolCall_idle by blast
    then obtain y where y: "getProp (args tc) ''sources'' = Some y"
      using isArray_Some by (auto simp add: deprecatedSources_def)
    have "getProp (args (onToolCall tc)) ''sources'' = Some webSources"
      using d y by (simp add: onToolCall_fires getProp_setProp_same)
    then have "correctSources (onToolCall tc)"
      by (simp add: correctSources_def webSources_def)
    with d show ?thesis by simp
  qed
  have noop: "onToolCall tc = tc" if "correctSources tc"
    using that correct_not_deprecated onToolCall_idle by blast
  from twice fires noop show ?thesis by blast
qed

theorem onToolCall_idempotent_witness:
  "onToolCall (onToolCall \<lparr>name = ''firecrawl_search'',
       args = JObj [(''query'', JStr ''crm''), (''sources'', JArr [JStr ''news''])]\<rparr>)
     = \<lparr>name = ''firecrawl_search'',
        args = JObj [(''query'', JStr ''crm''), (''sources'', JArr [JObj [(''type'', JStr ''web'')]])]\<rparr>
   \<and> onToolCall \<lparr>name = ''firecrawl_search'',
       args = JObj [(''sources'', JArr [JObj [(''type'', JStr ''news'')]])]\<rparr>
     = \<lparr>name = ''firecrawl_search'',
        args = JObj [(''sources'', JArr [JObj [(''type'', JStr ''news'')]])]\<rparr>"
proof -
  let ?a = "\<lparr>name = ''firecrawl_search'',
       args = JObj [(''query'', JStr ''crm''), (''sources'', JArr [JStr ''news''])]\<rparr>"
  let ?b = "\<lparr>name = ''firecrawl_search'',
       args = JObj [(''sources'', JArr [JObj [(''type'', JStr ''news'')]])]\<rparr>"
  have once: "onToolCall ?a = \<lparr>name = ''firecrawl_search'',
        args = JObj [(''query'', JStr ''crm''), (''sources'', JArr [JObj [(''type'', JStr ''web'')]])]\<rparr>"
    by (simp add: onToolCall_def webSources_def)
  have ok: "correctSources ?b"
    by (simp add: correctSources_def)
  show ?thesis
    using onToolCall_idempotent [of ?a] onToolCall_idempotent [of ?b] once ok by simp
qed

section \<open>Facts about one turn of the loop\<close>

lemma startsWith_nonempty: "startsWith n ''firecrawl_'' \<Longrightarrow> n \<noteq> []"
  by (auto simp add: startsWith_def)

lemma gate_off: "\<not> requireToolApprovalOf p \<Longrightarrow> approvalGate p r tn targs st = (Next, st)"
  by (simp add: approvalGate_def split: option.splits)

lemma gate_unseen:
  assumes "requireToolApprovalOf p" and "startsWith n ''firecrawl_''"
    and "sessionId p = Some sid" and "sid \<noteq> []"
    and "pendingApprovals st = Some pend" and "approvedTools p = Some appr"
    and "map_of appr (sid @ '':'' @ n) = None"
  shows "approvalGate p r (Some n) targs st =
     (Throw \<lparr>err_approvalId = ''approval_'' @ idSuffix r, err_toolName = n,
             err_toolArgs = targs, err_sessionId = sid, err_checkpointId = created r\<rparr>,
      st\<lparr>pendingApprovals :=
            Some (AList.update (''approval_'' @ idSuffix r)
              \<lparr>pa_approvalId = ''approval_'' @ idSuffix r, pa_sessionId = sid,
               pa_toolName = n, pa_toolArgs = targs, pa_timestamp = now r\<rparr> pend),
          effects := effects st @ [CreateCheckpoint ApprovalCkpt]\<rparr>)"
  using assms startsWith_nonempty [of n] by (simp add: approvalGate_def)

lemma gate_rejected:
  assumes "requireToolApprovalOf p" and "startsWith n ''firecrawl_''"
    and "sessionId p = Some sid" and "sid \<noteq> []"
    and "pendingApprovals st = Some pend" and "approvedTools p = Some appr"
    and "map_of appr (sid @ '':'' @ n) = Some d" and "\<not> approved d"
  shows "approvalGate p r (Some n) targs st = (ContinueRejected, st)"
  using assms startsWith_nonempty [of n] by (simp add: approvalGate_def)

lemma gate_outcomes:
  "approvalGate p r tn targs st = (Next, st)
   \<or> approvalGate p r tn targs st = (ContinueRejected, st)
   \<or> (\<exists>e x. approvalGate p r tn targs st =
         (Throw e, st\<lparr>pendingApprovals := Some x,
                      effects := effects st @ [CreateCheckpoint ApprovalCkpt]\<rparr>))"
  by (auto simp add: approvalGate_def split: option.splits)

lemma budget_outcomes:
  "budgetCheck p st = (Next, st) \<and> int (toolCallCount st) \<le> maxToolCalls p
   \<or> budgetCheck p st = (ContinueOverBudget, st) \<and> hasWarned st
        \<and> maxToolCalls p < int (toolCallCount st)
   \<or> budgetCheck p st =
        (ContinueOverBudget,
         st\<lparr>hasWarned := True, interrupted := True, effects := effects st @ [LimitWarning]\<rparr>)
      \<and> \<not> hasWarned st \<and> maxToolCalls p < int (toolCallCount st)"
  by (simp add: budgetCheck_def)

lemma error_outcomes:
  "errorGate p r msg st = (ContinueError, st)
   \<or> (\<exists>e x. errorGate p r msg st = (Throw e, st\<lparr>pendingApprovals := Some x\<rparr>)
         \<and> err_checkpointId e = None)"
  by (auto simp add: errorGate_def Let_def split: option.splits)

lemma body_timeout:
  "timeout p < elapsed r \<Longrightarrow> body p r ev st = (Break, st\<lparr>interrupted := True\<rparr>)"
  by (simp add: body_def)

lemma body_tool_use:
  "elapsed r \<le> timeout p \<Longrightarrow>
   body p r (ToolUse tn a b c d) st =
     (case approvalGate p r tn (extractArgs a b c d)
             (st\<lparr>toolCallCount := toolCallCount st + 1\<rparr>) of
        (Next, st') \<Rightarrow> budgetCheck p st'
      | (f, st') \<Rightarrow> (f, st'))"
  by (simp add: body_def)

lemma body_error:
  "elapsed r \<le> timeout p \<Longrightarrow> body p r (ErrorEvent msg) st = errorGate p r msg st"
  by (simp add: body_def)

lemma body_message:
  "elapsed r \<le> timeout p \<Longrightarrow>
   body p r (Message role cs) st =
     (Next, if role = ''assistant'' then st\<lparr>finalOutput := finalOutput st @ textOf cs\<rparr> else st)"
  by (simp add: body_def)

lemma body_other: "elapsed r \<le> timeout p \<Longrightarrow> body p r OtherEvent st = (Next, st)"
  by (simp add: body_def)

text \<open>The ways a turn on a \<open>tool_use\<close> event can end, with the state each leaves.\<close>

lemma tool_use_outcomes:
  assumes "elapsed r \<le> timeout p"
  shows "body p r (ToolUse tn a b c d) st =
           (ContinueRejected, st\<lparr>toolCallCount := toolCallCount st + 1\<rparr>)
   \<or> (\<exists>e x. body p r (ToolUse tn a b c d) st =
         (Throw e, st\<lparr>toolCallCount := toolCallCount st + 1, pendingApprovals := Some x,
                      effects := effects st @ [CreateCheckpoint ApprovalCkpt]\<rparr>))
   \<or> body p r (ToolUse tn a b c d) st =
         budgetCheck p (st\<lparr>toolCallCount := toolCallCount st + 1\<rparr>)"
  using gate_outcomes [of p r tn "extractArgs a b c d"
      "st\<lparr>toolCallCount := toolCallCount st + 1\<rparr>"] assms
  by (auto simp add: body_tool_use)

section \<open>Facts about the loop\<close>

lemma coherent_initial: "coherent (initial pend)"
  by (simp add: coherent_def initial_def warnings_def)

lemma body_cases:
  obtains (timeout) "timeout p < elapsed r" "body p r ev st = (Break, st\<lparr>interrupted := True\<rparr>)"
  | (rejected) "elapsed r \<le> timeout p" "isToolUse ev"
      "body p r ev st = (ContinueRejected, st\<lparr>toolCallCount := toolCallCount st + 1\<rparr>)"
      "requireToolApprovalOf p"
  | (suspended) e x where "elapsed r \<le> timeout p" "isToolUse ev"
      "body p r ev st =
         (Throw e, st\<lparr>toolCallCount := toolCallCount st + 1, pendingApprovals := Some x,
                      effects := effects st @ [CreateCheckpoint ApprovalCkpt]\<rparr>)"
      "requireToolApprovalOf p"
  | (within) "elapsed r \<le> timeout p" "isToolUse ev"
      "body p r ev st = (Next, st\<lparr>toolCallCount := toolCallCount st + 1\<rparr>)"
      "int (toolCallCount st) + 1 \<le> maxToolCalls p"
  | (over) "elapsed r \<le> timeout p" "isToolUse ev"
      "body p r ev st = (ContinueOverBudget, st\<lparr>toolCallCount := toolCallCount st + 1\<rparr>)"
      "hasWarned st" "maxToolCalls p < int (toolCallCount st) + 1"
  | (warned) "elapsed r \<le> timeout p" "isToolUse ev"
      "body p r ev st =
         (ContinueOverBudget,
          st\<lparr>toolCallCount := toolCallCount st + 1, hasWarned := True, interrupted := True,
             effects := effects st @ [LimitWarning]\<rparr>)"
      "\<not> hasWarned st" "maxToolCalls p < int (toolCallCount st) + 1"
  | (error) "elapsed r \<le> timeout p" "\<not> isToolUse ev" "body p r ev st = (ContinueError, st)"
      "assistantText ev = []"
  | (errorSuspended) e x where "elapsed r \<le> timeout p" "\<not> isToolUse ev"
      "body p r ev st = (Throw e, st\<lparr>pendingApprovals := Some x\<rparr>)"
      "err_checkpointId e = None" "assistantText ev = []"
  | (passed) "elapsed r \<le> timeout p" "\<not> isToolUse ev"
      "body p r ev st = (Next, st\<lparr>finalOutput := finalOutput st @ assistantText ev\<rparr>)"
proof (cases "timeout p < elapsed r")
  case True
  then show ?thesis using timeout body_timeout by blast
next
  case False
  then have le: "elapsed r \<le> timeout p" by simp
  show ?thesis
  proof (cases ev)
    case (ToolUse tn a b c d)
    let ?st1 = "st\<lparr>toolCallCount := toolCallCount st + 1\<rparr>"
    from tool_use_outcomes [OF le, of tn a b c d st]
    consider "body p r ev st = (ContinueRejected, ?st1)"
      | e x where "body p r ev st =
         (Throw e, st\<lparr>toolCallCount := toolCallCount st + 1, pendingApprovals := Some x,
                      effects := effects st @ [CreateCheckpoint ApprovalCkpt]\<rparr>)"
      | "body p r ev st = budgetCheck p ?st1"
      using ToolUse by auto
    then show ?thesis
    proof cases
      case 1
      have "requireToolApprovalOf p"
      proof (rule ccontr)
        assume "\<not> requireToolApprovalOf p"
        then have "body p r ev st = budgetCheck p ?st1"
          using ToolUse le by (simp add: body_tool_use gate_off)
        with 1 show False by (simp add: budgetCheck_def split: if_splits)
      qed
      with 1 le ToolUse show ?thesis using rejected by simp
    next
      case 2
      have "requireToolApprovalOf p"
      proof (rule ccontr)
        assume "\<not> requireToolApprovalOf p"
        then have "body p r ev st = budgetCheck p ?st1"
          using ToolUse le by (simp add: body_tool_use gate_off)
        with 2 show False by (simp add: budgetCheck_def split: if_splits)
      qed
      with 2 le ToolUse show ?thesis using suspended by simp
    next
      case 3
      from budget_outcomes [of p ?st1] 3 le ToolUse show ?thesis
        using within over warned by auto
    qed
  next
    case (ErrorEvent msg)
    from error_outcomes [of p r msg st] le ErrorEvent show ?thesis
      using error errorSuspended by (auto simp add: body_error)
  next
    case (Message role cs)
    with le show ?thesis using passed by (simp add: body_message)
  next
    case OtherEvent
    with le show ?thesis using passed by (simp add: body_other)
  qed
qed
lemma body_coherent: "coherent st \<Longrightarrow> coherent (snd (body p r ev st))"
  by (cases rule: body_cases [of p r ev st]) (auto simp add: coherent_def warnings_def)

lemma body_interrupted_mono: "interrupted st \<Longrightarrow> interrupted (snd (body p r ev st))"
  by (cases rule: body_cases [of p r ev st]) auto

lemma body_hasWarned_mono: "hasWarned st \<Longrightarrow> hasWarned (snd (body p r ev st))"
  by (cases rule: body_cases [of p r ev st]) auto

lemma body_count:
  "toolCallCount (snd (body p r ev st)) = toolCallCount st + (if isCall (ev, fst (body p r ev st)) then 1 else 0)"
  by (cases rule: body_cases [of p r ev st]) auto

lemma body_output:
  "finalOutput (snd (body p r ev st)) = finalOutput st @ spoken (ev, fst (body p r ev st))"
  by (cases rule: body_cases [of p r ev st]) (auto elim: isToolUse.elims)

lemma body_over_budget:
  "coherent st \<Longrightarrow> fst (body p r ev st) = ContinueOverBudget \<Longrightarrow>
   interrupted (snd (body p r ev st)) \<and> hasWarned (snd (body p r ev st))"
  by (cases rule: body_cases [of p r ev st]) (auto simp add: coherent_def)

text \<open>Unfolding the loop by one item, by the way the turn ends.\<close>

lemma consume_Yield:
  "consume p (Yield r ev # rest) st =
     (if fst (body p r ev st) = Break then (TimedOut, snd (body p r ev st))
      else case fst (body p r ev st) of
             Throw e \<Rightarrow> (Suspended e, snd (body p r ev st))
           | _ \<Rightarrow> consume p rest (snd (body p r ev st)))"
  by (cases "body p r ev st") (auto split: flow.splits)

lemma dispositions_Yield:
  "dispositions p (Yield r ev # rest) st =
     (ev, fst (body p r ev st)) #
     (if fst (body p r ev st) = Break then []
      else case fst (body p r ev st) of
             Throw e \<Rightarrow> []
           | _ \<Rightarrow> dispositions p rest (snd (body p r ev st)))"
  by (cases "body p r ev st") (auto split: flow.splits)

declare consume.simps(3) [simp del] dispositions.simps(3) [simp del]

lemma consume_coherent: "coherent st \<Longrightarrow> coherent (snd (consume p items st))"
proof (induction items arbitrary: st)
  case Nil
  then show ?case by simp
next
  case (Cons it rest)
  show ?case
  proof (cases it)
    case (Yield r ev)
    have c: "coherent (snd (body p r ev st))" using Cons.prems by (rule body_coherent)
    show ?thesis
      using c Cons.IH [OF c] by (simp add: Yield consume_Yield split: flow.splits)
  next
    case (Raise conc)
    with Cons.prems show ?thesis by simp
  qed
qed

lemma consume_interrupted_mono:
  "interrupted st \<Longrightarrow> interrupted (snd (consume p items st))"
proof (induction items arbitrary: st)
  case Nil
  then show ?case by simp
next
  case (Cons it rest)
  show ?case
  proof (cases it)
    case (Yield r ev)
    have c: "interrupted (snd (body p r ev st))"
      using Cons.prems by (rule body_interrupted_mono)
    show ?thesis
      using c Cons.IH [OF c] by (simp add: Yield consume_Yield split: flow.splits)
  next
    case (Raise conc)
    with Cons.prems show ?thesis by simp
  qed
qed

lemma consume_hasWarned_mono:
  "hasWarned st \<Longrightarrow> hasWarned (snd (consume p items st))"
proof (induction items arbitrary: st)
  case Nil
  then show ?case by simp
next
  case (Cons it rest)
  show ?case
  proof (cases it)
    case (Yield r ev)
    have c: "hasWarned (snd (body p r ev st))"
      using Cons.prems by (rule body_hasWarned_mono)
    show ?thesis
      using c Cons.IH [OF c] by (simp add: Yield consume_Yield split: flow.splits)
  next
    case (Raise conc)
    with Cons.prems show ?thesis by simp
  qed
qed

lemma consume_count:
  "toolCallCount (snd (consume p items st)) =
     toolCallCount st + length (filter isCall (dispositions p items st))"
proof (induction items arbitrary: st)
  case Nil
  then show ?case by simp
next
  case (Cons it rest)
  show ?case
  proof (cases it)
    case (Yield r ev)
    show ?thesis
      using Cons.IH [of "snd (body p r ev st)"] body_count [of p r ev st]
      by (simp add: Yield consume_Yield dispositions_Yield split: flow.splits)
  next
    case (Raise conc)
    then show ?thesis by simp
  qed
qed

lemma consume_output:
  "finalOutput (snd (consume p items st)) =
     finalOutput st @ concat (map spoken (dispositions p items st))"
proof (induction items arbitrary: st)
  case Nil
  then show ?case by simp
next
  case (Cons it rest)
  show ?case
  proof (cases it)
    case (Yield r ev)
    show ?thesis
      using Cons.IH [of "snd (body p r ev st)"] body_output [of p r ev st]
      by (simp add: Yield consume_Yield dispositions_Yield split: flow.splits)
  next
    case (Raise conc)
    then show ?thesis by simp
  qed
qed

lemma consume_over_budget:
  "coherent st \<Longrightarrow> (ev, ContinueOverBudget) \<in> set (dispositions p items st) \<Longrightarrow>
   interrupted (snd (consume p items st)) \<and> hasWarned (snd (consume p items st))"
proof (induction items arbitrary: st)
  case Nil
  then show ?case by simp
next
  case (Cons it rest)
  show ?case
  proof (cases it)
    case (Yield r ev0)
    let ?f = "fst (body p r ev0 st)" and ?st = "snd (body p r ev0 st)"
    have c: "coherent ?st" using Cons.prems(1) by (rule body_coherent)
    show ?thesis
    proof (cases "?f = ContinueOverBudget")
      case True
      then have "interrupted ?st \<and> hasWarned ?st"
        using Cons.prems(1) body_over_budget by blast
      then have "interrupted (snd (consume p rest ?st)) \<and> hasWarned (snd (consume p rest ?st))"
        using consume_interrupted_mono consume_hasWarned_mono by blast
      with True show ?thesis by (simp add: Yield consume_Yield)
    next
      case False
      then have "(ev, ContinueOverBudget) \<in> set (dispositions p rest ?st)
                 \<and> ?f \<noteq> Break \<and> (\<forall>e. ?f \<noteq> Throw e)"
        using Cons.prems(2) by (auto simp add: Yield dispositions_Yield split: flow.splits if_splits)
      then show ?thesis
        using Cons.IH [OF c] by (auto simp add: Yield consume_Yield split: flow.splits)
    qed
  next
    case (Raise conc)
    with Cons.prems show ?thesis by simp
  qed
qed

lemma consume_append:
  "consume p pre st = (Exhausted, st') \<Longrightarrow> consume p (pre @ items) st = consume p items st'"
proof (induction pre arbitrary: st)
  case Nil
  then show ?case by simp
next
  case (Cons it rest)
  show ?case
  proof (cases it)
    case (Yield r ev)
    from Cons.prems have "consume p rest (snd (body p r ev st)) = (Exhausted, st')
        \<and> fst (body p r ev st) \<noteq> Break \<and> (\<forall>e. fst (body p r ev st) \<noteq> Throw e)"
      by (auto simp add: Yield consume_Yield split: flow.splits if_splits)
    then show ?thesis
      using Cons.IH [of "snd (body p r ev st)"]
      by (auto simp add: Yield consume_Yield split: flow.splits)
  next
    case (Raise conc)
    with Cons.prems show ?thesis by simp
  qed
qed

lemma body_pending_frame:
  "(\<forall>e. fst (body p r ev st) \<noteq> Throw e) \<Longrightarrow>
   pendingApprovals (snd (body p r ev st)) = pendingApprovals st"
  by (cases rule: body_cases [of p r ev st]) auto

lemma consume_pending_frame:
  "(\<forall>e. fst (consume p items st) \<noteq> Suspended e) \<Longrightarrow>
   pendingApprovals (snd (consume p items st)) = pendingApprovals st"
proof (induction items arbitrary: st)
  case Nil
  then show ?case by simp
next
  case (Cons it rest)
  show ?case
  proof (cases it)
    case (Yield r ev)
    from Cons.prems have nothrow: "\<forall>e. fst (body p r ev st) \<noteq> Throw e"
      by (auto simp add: Yield consume_Yield split: flow.splits if_splits)
    then have keep: "pendingApprovals (snd (body p r ev st)) = pendingApprovals st"
      by (rule body_pending_frame)
    show ?thesis
    proof (cases "fst (body p r ev st) = Break")
      case True
      with keep show ?thesis by (simp add: Yield consume_Yield)
    next
      case False
      with nothrow have step: "consume p (it # rest) st = consume p rest (snd (body p r ev st))"
        by (auto simp add: Yield consume_Yield split: flow.splits)
      with Cons.prems have "\<forall>e. fst (consume p rest (snd (body p r ev st))) \<noteq> Suspended e"
        by simp
      from Cons.IH [OF this] keep step show ?thesis by simp
    qed
  next
    case (Raise conc)
    then show ?thesis by simp
  qed
qed

text \<open>Every recorded turn is a turn of the loop body, entered with the counter at the
  number of tool calls recorded before it.\<close>

lemma dispositions_split:
  "dispositions p items st = pre @ (ev, f) # post \<Longrightarrow>
   \<exists>r st1. fst (body p r ev st1) = f
     \<and> toolCallCount st1 = toolCallCount st + length (filter isCall pre)"
proof (induction items arbitrary: st pre)
  case Nil
  then show ?case by simp
next
  case (Cons it rest)
  show ?case
  proof (cases it)
    case (Yield r0 ev0)
    let ?f0 = "fst (body p r0 ev0 st)" and ?st0 = "snd (body p r0 ev0 st)"
    show ?thesis
    proof (cases pre)
      case Nil
      with Cons.prems have "ev = ev0 \<and> f = ?f0"
        by (auto simp add: Yield dispositions_Yield)
      then have "fst (body p r0 ev st) = f
          \<and> toolCallCount st = toolCallCount st + length (filter isCall pre)"
        using Nil by auto
      then show ?thesis by blast
    next
      case (Cons x pre')
      with Cons.prems have x: "x = (ev0, ?f0)"
        and tail: "dispositions p rest ?st0 = pre' @ (ev, f) # post"
        by (auto simp add: Yield dispositions_Yield split: flow.splits if_splits)
      from Cons.IH [OF tail] obtain r st1 where
        turn: "fst (body p r ev st1) = f" and
        cnt: "toolCallCount st1 = toolCallCount ?st0 + length (filter isCall pre')"
        by blast
      have "toolCallCount st1 = toolCallCount st + length (filter isCall pre)"
        using cnt body_count [of p r0 ev0 st] x Cons by simp
      with turn show ?thesis by blast
    qed
  next
    case (Raise conc)
    with Cons.prems show ?thesis by simp
  qed
qed

lemma dispositions_member:
  "(ev, f) \<in> set (dispositions p items st) \<Longrightarrow> \<exists>r st1. fst (body p r ev st1) = f"
proof -
  assume "(ev, f) \<in> set (dispositions p items st)"
  then obtain pre post where "dispositions p items st = pre @ (ev, f) # post"
    by (auto simp add: in_set_conv_decomp)
  from dispositions_split [OF this] show ?thesis by blast
qed

text \<open>With the counter at or above the budget, a turn on a \<open>tool_use\<close> never reaches
  the end of the body.\<close>

lemma tool_use_at_budget:
  assumes "isToolUse ev" and "maxToolCalls p \<le> int (toolCallCount st)"
  shows "fst (body p r ev st) = ContinueOverBudget \<or> fst (body p r ev st) = Break
     \<or> requireToolApprovalOf p
        \<and> (fst (body p r ev st) = ContinueRejected \<or> (\<exists>e. fst (body p r ev st) = Throw e))"
  using assms by (cases rule: body_cases [of p r ev st]) auto

text \<open>The loop stops only at the end of the stream, at a throwing iterator, at the
  timeout or at a suspension.\<close>

lemma dispositions_go_on:
  "dispositions p items st = pre @ [(ev, f)] \<Longrightarrow> f \<noteq> Break \<Longrightarrow> \<forall>e. f \<noteq> Throw e \<Longrightarrow>
   length items = length pre + 1 \<or> (\<exists>conc. items ! (length pre + 1) = Raise conc)"
proof (induction items arbitrary: st pre)
  case Nil
  then show ?case by simp
next
  case (Cons it rest)
  show ?case
  proof (cases it)
    case (Yield r0 ev0)
    let ?f0 = "fst (body p r0 ev0 st)" and ?st0 = "snd (body p r0 ev0 st)"
    show ?thesis
    proof (cases pre)
      case Nil
      with Cons.prems have "dispositions p rest ?st0 = []"
        by (auto simp add: Yield dispositions_Yield split: flow.splits if_splits)
      then have "rest = [] \<or> (\<exists>conc. rest ! 0 = Raise conc)"
        by (cases rest; cases "hd rest") (auto simp add: dispositions_Yield)
      with Nil show ?thesis by auto
    next
      case (Cons x pre')
      with Cons.prems(1) have tail: "dispositions p rest ?st0 = pre' @ [(ev, f)]"
        by (auto simp add: Yield dispositions_Yield split: flow.splits if_splits)
      from Cons.IH [OF tail Cons.prems(2) Cons.prems(3)] Cons show ?thesis by auto
    qed
  next
    case (Raise conc)
    with Cons.prems show ?thesis by simp
  qed
qed

text \<open>The ways \<open>runAnalysis\<close> on a stream ends.\<close>

lemma runAnalysis_cases:
  obtains (busy) "runAnalysis p pend (Stream items) fin = Inl ServerBusy"
  | (approval) e where "fst (consume p items (initial pend)) = Suspended e"
      "runAnalysis p pend (Stream items) fin =
         Inr (approvalResponse p fin e (snd (consume p items (initial pend))))"
  | (failed) "fst (consume p items (initial pend)) = Failed False"
      "runAnalysis p pend (Stream items) fin =
         Inr (finalize p fin ((snd (consume p items (initial pend)))\<lparr>interrupted := True\<rparr>))"
  | (ended) "fst (consume p items (initial pend)) = Exhausted
         \<or> fst (consume p items (initial pend)) = TimedOut"
      "runAnalysis p pend (Stream items) fin =
         Inr (finalize p fin (snd (consume p items (initial pend))))"
proof (cases "consume p items (initial pend)")
  case (Pair s st)
  show ?thesis
  proof (cases s)
    case Exhausted
    with Pair show ?thesis using ended by (simp add: runAnalysis_def)
  next
    case TimedOut
    with Pair show ?thesis using ended by (simp add: runAnalysis_def)
  next
    case (Suspended e)
    with Pair show ?thesis using approval by (simp add: runAnalysis_def)
  next
    case (Failed conc)
    with Pair show ?thesis using busy failed by (cases conc) (simp_all add: runAnalysis_def)
  qed
qed

lemma finalize_frame:
  "res_interrupted (fst (finalize p fin st)) = interrupted st
   \<and> warnings (snd (finalize p fin st)) = warnings st
   \<and> toolCallCount (snd (finalize p fin st)) = toolCallCount st
   \<and> pendingApprovals (snd (finalize p fin st)) = pendingApprovals st
   \<and> report (fst (finalize p fin st)) = finalOutput st
   \<and> needsApproval (fst (finalize p fin st)) = None"
  by (simp add: finalize_def saveCheckpoint_def warnings_def Let_def)

lemma approvalResponse_frame:
  "res_interrupted (fst (approvalResponse p fin e st))
   \<and> warnings (snd (approvalResponse p fin e st)) = warnings st
   \<and> toolCallCount (snd (approvalResponse p fin e st)) = toolCallCount st
   \<and> pendingApprovals (snd (approvalResponse p fin e st)) = pendingApprovals st
   \<and> report (fst (approvalResponse p fin e st)) = finalOutput st
   \<and> needsApproval (fst (approvalResponse p fin e st)) = Some True
   \<and> approvalId (fst (approvalResponse p fin e st)) = Some (err_approvalId e)
   \<and> toolName (fst (approvalResponse p fin e st)) = Some (err_toolName e)"
  by (simp add: approvalResponse_def saveCheckpoint_def warnings_def Let_def)

text \<open>What the result and the final state keep of the state the loop ends in.\<close>

lemma runAnalysis_keeps:
  assumes "runAnalysis p pend (Stream items) fin = Inr (res, st')"
  shows "(interrupted (snd (consume p items (initial pend))) \<longrightarrow> res_interrupted res)
   \<and> warnings st' = warnings (snd (consume p items (initial pend)))
   \<and> toolCallCount st' = toolCallCount (snd (consume p items (initial pend)))
   \<and> pendingApprovals st' = pendingApprovals (snd (consume p items (initial pend)))
   \<and> report res = finalOutput (snd (consume p items (initial pend)))"
proof (cases rule: runAnalysis_cases [of p pend items fin])
  case busy
  with assms show ?thesis by simp
next
  case (approval e)
  with assms approvalResponse_frame [of p fin e "snd (consume p items (initial pend))"]
  show ?thesis by (auto simp add: fst_def snd_def split: prod.splits)
next
  case failed
  with assms
    finalize_frame [of p fin "(snd (consume p items (initial pend)))\<lparr>interrupted := True\<rparr>"]
  show ?thesis by (auto simp add: warnings_def)
next
  case ended
  with assms finalize_frame [of p fin "snd (consume p items (initial pend))"]
  show ?thesis by auto
qed

text \<open>Without the approval gate, a counter above the budget means that the warning was
  given.\<close>

lemma body_counter_warned:
  assumes "\<not> requireToolApprovalOf p"
    and "maxToolCalls p < int (toolCallCount st) \<longrightarrow> hasWarned st"
  shows "maxToolCalls p < int (toolCallCount (snd (body p r ev st)))
           \<longrightarrow> hasWarned (snd (body p r ev st))"
  using assms by (cases rule: body_cases [of p r ev st]) auto

lemma consume_counter_warned:
  assumes "\<not> requireToolApprovalOf p"
  shows "maxToolCalls p < int (toolCallCount st) \<longrightarrow> hasWarned st \<Longrightarrow>
     maxToolCalls p < int (toolCallCount (snd (consume p items st)))
           \<longrightarrow> hasWarned (snd (consume p items st))"
proof (induction items arbitrary: st)
  case Nil
  then show ?case by simp
next
  case (Cons it rest)
  show ?case
  proof (cases it)
    case (Yield r ev)
    have c: "maxToolCalls p < int (toolCallCount (snd (body p r ev st)))
           \<longrightarrow> hasWarned (snd (body p r ev st))"
      using assms Cons.prems by (rule body_counter_warned)
    show ?thesis
      using c Cons.IH [OF c] by (simp add: Yield consume_Yield split: flow.splits)
  next
    case (Raise conc)
    with Cons.prems show ?thesis by simp
  qed
qed

section \<open>Properties of the run controller\<close>

text \<open>Percentages at some inputs; at the last two the rounding of the quotient to a
  double takes the value just below the half (57.5 and 14.5 in exact arithmetic).\<close>

lemma roundPct_examples:
  "roundPct 1 1 = Fin 100" "roundPct 6000 300000 = Fin 2" "roundPct 300000 300000 = Fin 100"
  "roundPct 23 40 = Fin 57" "roundPct 43500 300000 = Fin 14"
  by code_simp+

lemma roundPct_finite: "b \<noteq> 0 \<Longrightarrow> \<exists>x. roundPct a b = Fin x"
  by (simp add: roundPct_def split: prod.splits)

lemmas run_defs =
  runAnalysis_def body_def approvalGate_def budgetCheck_def errorGate_def extractArgs_def
  initial_def finalize_def approvalResponse_def saveCheckpoint_def progressPct_def
  roundPct_examples maxToolCalls_def timeout_def allowWebToolsOf_def previousProgressOf_def
  requireToolApprovalOf_def startsWith_def toolApproval_def decision.make_def Let_def

lemmas example_defs =
  defaults_def tight_def deepNoWeb_def deepGated_def askedBefore_def quickRejected_def
  quickOpen_def atStart_def later_def nearTimeout_def searchCall_def calcCall_def
  closing_def searchError_def onTime_def atTimeout_def

subsection \<open>The tool-call counter\<close>

text \<open>
  C10. The counter \<open>toolCallCount\<close> goes up by exactly one in every turn on a
  \<open>tool_use\<close> event that gets past the timeout check, whatever the mode and however
  the turn ends (rejected, over the budget, suspended for approval or executed), and by
  nothing on any other event. The increment comes before the approval gate and the
  budget check: the budget comparison is made with the incremented value. After the
  loop the counter is the number of such turns, and it is the value the progress of an
  interrupted run with a positive budget is computed from.
\<close>

theorem toolCallCount_counts_every_tool_use:
  "(elapsed r \<le> timeout p \<longrightarrow>
      toolCallCount (snd (body p r (ToolUse tn a b c d) st)) = toolCallCount st + 1)
   \<and> (fst (body p r (ToolUse tn a b c d) st) = ContinueOverBudget \<longrightarrow>
        maxToolCalls p < int (toolCallCount st) + 1)
   \<and> (fst (body p r (ToolUse tn a b c d) st) = Next \<longrightarrow>
        int (toolCallCount st) + 1 \<le> maxToolCalls p)
   \<and> (\<not> isToolUse ev \<longrightarrow> toolCallCount (snd (body p r ev st)) = toolCallCount st)
   \<and> toolCallCount (snd (consume p items st)) =
        toolCallCount st + length (filter isCall (dispositions p items st))
   \<and> (interrupted st \<and> 0 < maxToolCalls p \<longrightarrow>
        progress (fst (finalize p fin st)) =
          min95 (roundPct (int (toolCallCount st)) (maxToolCalls p)))"
proof -
  let ?ev = "ToolUse tn a b c d"
  have one: "toolCallCount (snd (body p r ?ev st)) = toolCallCount st + 1"
    if "elapsed r \<le> timeout p"
    using that by (cases rule: body_cases [of p r ?ev st]) auto
  have over: "maxToolCalls p < int (toolCallCount st) + 1"
    if "fst (body p r ?ev st) = ContinueOverBudget"
    using that by (cases rule: body_cases [of p r ?ev st]) auto
  have within: "int (toolCallCount st) + 1 \<le> maxToolCalls p"
    if "fst (body p r ?ev st) = Next"
    using that by (cases rule: body_cases [of p r ?ev st]) auto
  have others: "toolCallCount (snd (body p r ev st)) = toolCallCount st"
    if "\<not> isToolUse ev"
    using that by (cases rule: body_cases [of p r ev st]) auto
  have prog: "progress (fst (finalize p fin st)) =
      min95 (roundPct (int (toolCallCount st)) (maxToolCalls p))"
    if "interrupted st \<and> 0 < maxToolCalls p"
    using that by (simp add: finalize_def progressPct_def saveCheckpoint_def Let_def)
  from one over within others prog consume_count [of p items st] show ?thesis
    by blast
qed

theorem toolCallCount_counts_every_tool_use_witness:
  "elapsed later \<le> timeout quickOpen
   \<and> fst (body quickOpen later calcCall
         ((initial (Some []))\<lparr>toolCallCount := 1, hasWarned := True, interrupted := True\<rparr>))
       = ContinueOverBudget
   \<and> toolCallCount (snd (body quickOpen later calcCall
         ((initial (Some []))\<lparr>toolCallCount := 1, hasWarned := True, interrupted := True\<rparr>)))
       = 2
   \<and> maxToolCalls quickOpen < 1 + 1
   \<and> \<not> isToolUse closing
   \<and> toolCallCount (snd (body quickOpen later closing
         ((initial (Some []))\<lparr>toolCallCount := 1, hasWarned := True, interrupted := True\<rparr>)))
       = 1
   \<and> progress (fst (finalize quickOpen onTime
         ((initial (Some []))\<lparr>toolCallCount := 1, hasWarned := True, interrupted := True\<rparr>)))
       = Fin 95
   \<and> fst (body quickOpen later calcCall (initial (Some []))) = Next
   \<and> int (toolCallCount (initial (Some []))) + 1 \<le> maxToolCalls quickOpen
   \<and> fst (body quickRejected later searchCall (initial (Some []))) = ContinueRejected
   \<and> toolCallCount (snd (body quickRejected later searchCall (initial (Some [])))) = 1
   \<and> toolCallCount (snd (consume quickRejected
        [Yield atStart searchCall, Yield later closing, Yield later calcCall, Yield later calcCall]
        (initial (Some [])))) = 3"
proof -
  let ?over = "(initial (Some []))\<lparr>toolCallCount := 1, hasWarned := True, interrupted := True\<rparr>"
  let ?items = "[Yield atStart searchCall, Yield later closing, Yield later calcCall,
    Yield later calcCall]"
  have a: "elapsed later \<le> timeout quickOpen \<and> elapsed later \<le> timeout quickRejected"
    by (simp add: run_defs example_defs)
  have b: "fst (body quickRejected later searchCall (initial (Some []))) = ContinueRejected"
    by (simp add: run_defs example_defs)
  have c: "fst (body quickOpen later calcCall ?over) = ContinueOverBudget"
    by (simp add: run_defs example_defs)
  have d: "fst (body quickOpen later calcCall (initial (Some []))) = Next"
    by (simp add: run_defs example_defs)
  have e: "length (filter isCall (dispositions quickRejected ?items (initial (Some [])))) = 3"
    by (simp add: run_defs example_defs dispositions.simps(3))
  have f: "\<not> isToolUse closing \<and> interrupted ?over \<and> 0 < maxToolCalls quickOpen
      \<and> min95 (roundPct (int (toolCallCount ?over)) (maxToolCalls quickOpen)) = Fin 95"
    by (simp add: run_defs example_defs)
  show ?thesis
    using a b c d e f
      toolCallCount_counts_every_tool_use [of later quickOpen "Some ''calculator''"
        "Some (JObj [(''expr'', JStr ''1+1'')])" None None None ?over closing "[]" onTime]
      toolCallCount_counts_every_tool_use [of later quickOpen "Some ''calculator''"
        "Some (JObj [(''expr'', JStr ''1+1'')])" None None None "initial (Some [])" closing
        "[]" onTime]
      toolCallCount_counts_every_tool_use [of later quickRejected "Some ''firecrawl_search''"
        None None "Some (JObj [(''query'', JStr ''crm'')])" None "initial (Some [])"
        closing ?items onTime]
    by (simp add: searchCall_def calcCall_def initial_def)
qed

subsection \<open>The approval gate\<close>

text \<open>
  C8. A call of a gated tool (a name that starts with \<open>firecrawl_\<close>, in a run that
  requires approval, has a session and was given both tables) whose recorded decision
  under the key of session and tool is \<open>approved = false\<close> is skipped: its turn ends at
  the \<open>continue\<close> of the rejection with nothing changed but the counter, so no
  \<open>PendingApprovalError\<close> is thrown, the pending table stays as it was, and the loop goes
  on with the remaining events.
\<close>

theorem rejected_call_is_skipped:
  assumes "requireToolApprovalOf p" and "startsWith n ''firecrawl_''"
    and "sessionId p = Some sid" and "sid \<noteq> []"
    and "pendingApprovals st = Some pend" and "approvedTools p = Some appr"
    and "map_of appr (sid @ '':'' @ n) = Some dec" and "\<not> approved dec"
    and "elapsed r \<le> timeout p"
  shows "body p r (ToolUse (Some n) a b c d) st =
           (ContinueRejected, st\<lparr>toolCallCount := toolCallCount st + 1\<rparr>)
   \<and> pendingApprovals (snd (body p r (ToolUse (Some n) a b c d) st)) = Some pend
   \<and> consume p (Yield r (ToolUse (Some n) a b c d) # rest) st =
       consume p rest (st\<lparr>toolCallCount := toolCallCount st + 1\<rparr>)
   \<and> dispositions p (Yield r (ToolUse (Some n) a b c d) # rest) st =
       (ToolUse (Some n) a b c d, ContinueRejected)
         # dispositions p rest (st\<lparr>toolCallCount := toolCallCount st + 1\<rparr>)"
proof -
  have "approvalGate p r (Some n) (extractArgs a b c d)
          (st\<lparr>toolCallCount := toolCallCount st + 1\<rparr>) =
        (ContinueRejected, st\<lparr>toolCallCount := toolCallCount st + 1\<rparr>)"
    using assms by (intro gate_rejected) simp_all
  then have turn: "body p r (ToolUse (Some n) a b c d) st =
      (ContinueRejected, st\<lparr>toolCallCount := toolCallCount st + 1\<rparr>)"
    using assms(9) by (simp add: body_tool_use)
  then show ?thesis
    using assms(5) by (simp add: consume_Yield dispositions_Yield)
qed

theorem rejected_call_is_skipped_witness:
  "requireToolApprovalOf quickRejected \<and> startsWith ''firecrawl_search'' ''firecrawl_''
   \<and> map_of (the (approvedTools quickRejected)) (''s1'' @ '':'' @ ''firecrawl_search'')
       = Some \<lparr>approved = False, dec_timestamp = 2\<rparr>
   \<and> elapsed atStart \<le> timeout quickRejected
   \<and> fst (body quickRejected atStart searchCall (initial (Some []))) = ContinueRejected
   \<and> runAnalysis quickRejected (Some []) (Stream [Yield atStart searchCall, Yield later closing])
        onTime
     = Inr (\<lparr>report = ''Summary.'', checkpointId = None, res_interrupted = False,
             progress = Fin 100, needsApproval = None, approvalId = None, toolName = None,
             toolArgs = None\<rparr>,
            \<lparr>toolCallCount = 1, hasWarned = False, interrupted = False,
             lastCheckpointId = None, finalOutput = ''Summary.'',
             pendingApprovals = Some [], effects = []\<rparr>)"
proof -
  have h1: "requireToolApprovalOf quickRejected"
    by (simp add: run_defs example_defs)
  have h2: "startsWith ''firecrawl_search'' ''firecrawl_''"
    by (simp add: startsWith_def)
  have h3: "sessionId quickRejected = Some ''s1''"
    by (simp add: quickRejected_def)
  have h4: "''s1'' \<noteq> []"
    by simp
  have h5: "pendingApprovals (initial (Some [])) = Some []"
    by (simp add: initial_def)
  have h6: "approvedTools quickRejected =
      Some [(''s1:firecrawl_search'', \<lparr>approved = False, dec_timestamp = 2\<rparr>)]"
    by (simp add: run_defs example_defs)
  have h7: "map_of [(''s1:firecrawl_search'', \<lparr>approved = False, dec_timestamp = 2\<rparr>)]
      (''s1'' @ '':'' @ ''firecrawl_search'') = Some \<lparr>approved = False, dec_timestamp = 2\<rparr>"
    by simp
  have h8: "\<not> approved \<lparr>approved = False, dec_timestamp = 2\<rparr>"
    by simp
  have h9: "elapsed atStart \<le> timeout quickRejected"
    by (simp add: run_defs example_defs)
  have rest: "consume quickRejected [Yield later closing]
      ((initial (Some []))\<lparr>toolCallCount := toolCallCount (initial (Some [])) + 1\<rparr>) =
      (Exhausted, \<lparr>toolCallCount = 1, hasWarned = False, interrupted = False,
             lastCheckpointId = None, finalOutput = ''Summary.'',
             pendingApprovals = Some [], effects = []\<rparr>)"
    by (simp add: run_defs example_defs consume.simps(3))
  note main = rejected_call_is_skipped [OF h1 h2 h3 h4 h5 h6 h7 h8 h9,
      of None None "Some (JObj [(''query'', JStr ''crm'')])" None "[Yield later closing]"]
  from main rest have loop: "consume quickRejected [Yield atStart searchCall, Yield later closing]
      (initial (Some [])) =
      (Exhausted, \<lparr>toolCallCount = 1, hasWarned = False, interrupted = False,
             lastCheckpointId = None, finalOutput = ''Summary.'',
             pendingApprovals = Some [], effects = []\<rparr>)"
    by (simp add: searchCall_def)
  from main have turn: "fst (body quickRejected atStart searchCall (initial (Some [])))
      = ContinueRejected"
    by (simp add: searchCall_def)
  have run: "runAnalysis quickRejected (Some []) (Stream [Yield atStart searchCall, Yield later closing])
        onTime
     = Inr (\<lparr>report = ''Summary.'', checkpointId = None, res_interrupted = False,
             progress = Fin 100, needsApproval = None, approvalId = None, toolName = None,
             toolArgs = None\<rparr>,
            \<lparr>toolCallCount = 1, hasWarned = False, interrupted = False,
             lastCheckpointId = None, finalOutput = ''Summary.'',
             pendingApprovals = Some [], effects = []\<rparr>)"
    using loop by (simp add: runAnalysis_def finalize_def progressPct_def)
  from h1 h2 h6 h7 h9 turn run show ?thesis by simp
qed

text \<open>
  C5. The first call of a gated tool (a name that starts with \<open>firecrawl_\<close>) in a
  session with approval required and no decision recorded for session and tool, met
  after events that did not end the loop and before the timeout: the run asks for a
  checkpoint (a failure leaves only the checkpoint id absent), puts a new entry under
  a new approval id into the pending table and returns at once, whatever the stream
  holds next, a result with \<open>needsApproval = true\<close>, \<open>interrupted = true\<close>, the non-empty
  approval id, the tool name, the tool arguments and, when the checkpoint was created
  with a non-empty id, that checkpoint id.
\<close>

theorem first_gated_call_suspends:
  assumes "requireToolApprovalOf p" and "startsWith n ''firecrawl_''"
    and "sessionId p = Some sid" and "sid \<noteq> []"
    and "approvedTools p = Some appr" and "map_of appr (sid @ '':'' @ n) = None"
    and "consume p pre (initial (Some pend)) = (Exhausted, st)"
    and "elapsed r \<le> timeout p"
  shows "\<exists>res st'.
      runAnalysis p (Some pend) (Stream (pre @ Yield r (ToolUse (Some n) a b c d) # rest)) fin
        = Inr (res, st')
      \<and> needsApproval res = Some True \<and> res_interrupted res
      \<and> approvalId res = Some (''approval_'' @ idSuffix r) \<and> ''approval_'' @ idSuffix r \<noteq> []
      \<and> toolName res = Some n \<and> toolArgs res = Some (extractArgs a b c d)
      \<and> (\<forall>cp. created r = Some cp \<and> cp \<noteq> [] \<longrightarrow> checkpointId res = Some cp)
      \<and> report res = finalOutput st
      \<and> pendingApprovals st' =
          Some (AList.update (''approval_'' @ idSuffix r)
            \<lparr>pa_approvalId = ''approval_'' @ idSuffix r, pa_sessionId = sid, pa_toolName = n,
             pa_toolArgs = extractArgs a b c d, pa_timestamp = now r\<rparr> pend)
      \<and> CreateCheckpoint ApprovalCkpt \<in> set (effects st')"
proof -
  let ?ev = "ToolUse (Some n) a b c d"
  let ?st1 = "st\<lparr>toolCallCount := toolCallCount st + 1\<rparr>"
  let ?e = "\<lparr>err_approvalId = ''approval_'' @ idSuffix r, err_toolName = n,
             err_toolArgs = extractArgs a b c d, err_sessionId = sid,
             err_checkpointId = created r\<rparr>"
  let ?st2 = "?st1\<lparr>pendingApprovals :=
            Some (AList.update (''approval_'' @ idSuffix r)
              \<lparr>pa_approvalId = ''approval_'' @ idSuffix r, pa_sessionId = sid,
               pa_toolName = n, pa_toolArgs = extractArgs a b c d, pa_timestamp = now r\<rparr> pend),
          effects := effects ?st1 @ [CreateCheckpoint ApprovalCkpt]\<rparr>"
  have "\<forall>e. fst (consume p pre (initial (Some pend))) \<noteq> Suspended e"
    using assms(7) by simp
  from consume_pending_frame [OF this] have pend: "pendingApprovals st = Some pend"
    using assms(7) by (simp add: initial_def)
  then have "pendingApprovals ?st1 = Some pend" by simp
  from gate_unseen [OF assms(1) assms(2) assms(3) assms(4) this assms(5) assms(6)]
  have "approvalGate p r (Some n) (extractArgs a b c d) ?st1 = (Throw ?e, ?st2)" .
  then have turn: "body p r ?ev st = (Throw ?e, ?st2)"
    using assms(8) by (simp add: body_tool_use)
  have "consume p (pre @ Yield r ?ev # rest) (initial (Some pend)) =
      consume p (Yield r ?ev # rest) st"
    using assms(7) by (rule consume_append)
  with turn have loop: "consume p (pre @ Yield r ?ev # rest) (initial (Some pend)) =
      (Suspended ?e, ?st2)"
    by (simp add: consume_Yield)
  have run: "runAnalysis p (Some pend) (Stream (pre @ Yield r ?ev # rest)) fin =
      Inr (approvalResponse p fin ?e ?st2)"
    using loop by (simp add: runAnalysis_def)
  obtain res st' where rs: "approvalResponse p fin ?e ?st2 = (res, st')"
    by (cases "approvalResponse p fin ?e ?st2")
  have fields: "needsApproval res = Some True \<and> res_interrupted res
      \<and> approvalId res = Some (''approval_'' @ idSuffix r)
      \<and> toolName res = Some n \<and> toolArgs res = Some (extractArgs a b c d)
      \<and> report res = finalOutput st"
    using rs by (auto simp add: approvalResponse_def saveCheckpoint_def Let_def)
  have ckpt: "\<forall>cp. created r = Some cp \<and> cp \<noteq> [] \<longrightarrow> checkpointId res = Some cp"
    using rs by (auto simp add: approvalResponse_def saveCheckpoint_def Let_def)
  have table: "pendingApprovals st' =
          Some (AList.update (''approval_'' @ idSuffix r)
            \<lparr>pa_approvalId = ''approval_'' @ idSuffix r, pa_sessionId = sid, pa_toolName = n,
             pa_toolArgs = extractArgs a b c d, pa_timestamp = now r\<rparr> pend)"
    using rs by (auto simp add: approvalResponse_def saveCheckpoint_def Let_def)
  have eff: "CreateCheckpoint ApprovalCkpt \<in> set (effects st')"
    using rs by (auto simp add: approvalResponse_def saveCheckpoint_def Let_def)
  from run rs fields ckpt table eff show ?thesis by simp
qed

theorem first_gated_call_suspends_witness:
  "requireToolApprovalOf deepGated \<and> startsWith ''firecrawl_search'' ''firecrawl_''
   \<and> consume deepGated [Yield atStart closing] (initial (Some [])) =
       (Exhausted, (initial (Some []))\<lparr>finalOutput := ''Summary.''\<rparr>)
   \<and> elapsed later \<le> timeout deepGated
   \<and> (\<exists>res st'.
        runAnalysis deepGated (Some [])
          (Stream ([Yield atStart closing] @ Yield later searchCall # [Yield later calcCall])) onTime
          = Inr (res, st')
        \<and> needsApproval res = Some True \<and> approvalId res = Some ''approval_2_xyz''
        \<and> toolName res = Some ''firecrawl_search''
        \<and> toolArgs res = Some (JObj [(''query'', JStr ''crm'')])
        \<and> checkpointId res = Some ''cp2'' \<and> report res = ''Summary.'')"
proof -
  have h1: "requireToolApprovalOf deepGated"
    by (simp add: run_defs example_defs)
  have h2: "startsWith ''firecrawl_search'' ''firecrawl_''"
    by (simp add: startsWith_def)
  have h3: "sessionId deepGated = Some ''s1''"
    by (simp add: deepGated_def)
  have h4: "''s1'' \<noteq> []"
    by simp
  have h5: "approvedTools deepGated = Some []"
    by (simp add: deepGated_def)
  have h6: "map_of ([] :: (string \<times> decision) list) (''s1'' @ '':'' @ ''firecrawl_search'') = None"
    by simp
  have h7: "consume deepGated [Yield atStart closing] (initial (Some [])) =
       (Exhausted, (initial (Some []))\<lparr>finalOutput := ''Summary.''\<rparr>)"
    by (simp add: run_defs example_defs consume.simps(3))
  have h8: "elapsed later \<le> timeout deepGated"
    by (simp add: run_defs example_defs)
  have args: "extractArgs None None (Some (JObj [(''query'', JStr ''crm'')])) None
      = JObj [(''query'', JStr ''crm'')]"
    by (simp add: extractArgs_def)
  from first_gated_call_suspends [OF h1 h2 h3 h4 h5 h6 h7 h8,
      of None None "Some (JObj [(''query'', JStr ''crm'')])" None "[Yield later calcCall]" onTime]
  obtain res st' where
    "runAnalysis deepGated (Some [])
          (Stream ([Yield atStart closing] @ Yield later searchCall # [Yield later calcCall])) onTime
          = Inr (res, st')"
    "needsApproval res = Some True" "approvalId res = Some ''approval_2_xyz''"
    "toolName res = Some ''firecrawl_search''"
    "toolArgs res = Some (JObj [(''query'', JStr ''crm'')])"
    "checkpointId res = Some ''cp2''" "report res = ''Summary.''"
    by (auto simp add: args searchCall_def later_def)
  with h1 h2 h7 h8 show ?thesis by blast
qed

subsection \<open>The budget\<close>

lemma no_web_tools_zero_budget: "\<not> allowWebToolsOf p \<Longrightarrow> maxToolCalls p = 0"
  by (simp add: maxToolCalls_def)

text \<open>
  C1, as the claim states it, fails: in a deep run with \<open>allowWebTools = false\<close> the
  budget is zero, and one call of an ungated tool at time 0, followed by the normal end
  of the stream, gives a result with \<open>interrupted = true\<close> (and the limit warning and the
  automatic checkpoint), with no timeout and no stream error.
\<close>

theorem zero_budget_counterexample:
  "\<not> allowWebToolsOf deepNoWeb \<and> maxToolCalls deepNoWeb = 0
   \<and> elapsed atStart \<le> timeout deepNoWeb
   \<and> runAnalysis deepNoWeb (Some []) (Stream [Yield atStart calcCall]) onTime
     = Inr (\<lparr>report = [], checkpointId = Some ''cp9'', res_interrupted = True,
             progress = Fin 2, needsApproval = None, approvalId = None, toolName = None,
             toolArgs = None\<rparr>,
            \<lparr>toolCallCount = 1, hasWarned = True, interrupted = True,
             lastCheckpointId = Some ''cp9'', finalOutput = [],
             pendingApprovals = Some [],
             effects = [LimitWarning, CreateCheckpoint AutoCkpt]\<rparr>)"
  by (simp add: run_defs example_defs consume.simps(3))

text \<open>
  C1, amended. With an effective budget of zero no tool call is executed: every turn
  on a \<open>tool_use\<close> event ends at the \<open>continue\<close> of the budget check, at the timeout, or
  (only with approval required) at the rejection or the suspension of the approval
  gate. The zero budget does mark the run interrupted: as soon as one call reaches the
  budget check, the result has \<open>interrupted = true\<close> and the limit warning was emitted
  exactly once.
\<close>

theorem zero_budget_skips_and_interrupts:
  assumes "maxToolCalls p = 0"
  shows "(\<forall>(ev, f) \<in> set (dispositions p items (initial pend)). isToolUse ev \<longrightarrow>
            f = ContinueOverBudget \<or> f = Break
            \<or> requireToolApprovalOf p \<and> (f = ContinueRejected \<or> (\<exists>e. f = Throw e)))
   \<and> (\<forall>res st' ev. runAnalysis p pend (Stream items) fin = Inr (res, st')
          \<and> (ev, ContinueOverBudget) \<in> set (dispositions p items (initial pend))
        \<longrightarrow> res_interrupted res \<and> warnings st' = 1)"
proof -
  have calls: "f = ContinueOverBudget \<or> f = Break
      \<or> requireToolApprovalOf p \<and> (f = ContinueRejected \<or> (\<exists>e. f = Throw e))"
    if mem: "(ev, f) \<in> set (dispositions p items (initial pend))" and tu: "isToolUse ev"
    for ev f
  proof -
    from dispositions_member [OF mem] obtain r st1 where turn: "fst (body p r ev st1) = f"
      by blast
    have "maxToolCalls p \<le> int (toolCallCount st1)" using assms by simp
    from tool_use_at_budget [OF tu this, of r] turn show ?thesis by simp
  qed
  have marks: "res_interrupted res \<and> warnings st' = 1"
    if run: "runAnalysis p pend (Stream items) fin = Inr (res, st')"
      and mem: "(ev, ContinueOverBudget) \<in> set (dispositions p items (initial pend))"
    for res st' ev
  proof -
    let ?st = "snd (consume p items (initial pend))"
    from consume_over_budget [OF coherent_initial mem]
    have iw: "interrupted ?st \<and> hasWarned ?st" .
    have "coherent ?st" using coherent_initial by (rule consume_coherent)
    with iw have "warnings ?st = 1" by (simp add: coherent_def)
    with iw runAnalysis_keeps [OF run] show ?thesis by simp
  qed
  from calls marks show ?thesis by blast
qed

theorem zero_budget_skips_and_interrupts_witness:
  "maxToolCalls deepNoWeb = 0
   \<and> dispositions deepNoWeb [Yield atStart calcCall, Yield later searchCall, Yield later closing]
       (initial (Some []))
     = [(calcCall, ContinueOverBudget), (searchCall, ContinueOverBudget), (closing, Next)]
   \<and> (\<exists>res st'. runAnalysis deepNoWeb (Some [])
          (Stream [Yield atStart calcCall, Yield later searchCall, Yield later closing]) onTime
          = Inr (res, st') \<and> res_interrupted res \<and> warnings st' = 1)"
proof -
  let ?items = "[Yield atStart calcCall, Yield later searchCall, Yield later closing]"
  have z: "maxToolCalls deepNoWeb = 0"
    by (simp add: run_defs example_defs)
  have d: "dispositions deepNoWeb ?items (initial (Some []))
     = [(calcCall, ContinueOverBudget), (searchCall, ContinueOverBudget), (closing, Next)]"
    by (simp add: run_defs example_defs dispositions.simps(3))
  have "\<exists>res st'. runAnalysis deepNoWeb (Some []) (Stream ?items) onTime = Inr (res, st')"
    by (simp add: run_defs example_defs consume.simps(3))
  then obtain res st' where
    r: "runAnalysis deepNoWeb (Some []) (Stream ?items) onTime = Inr (res, st')"
    by blast
  have m: "(calcCall, ContinueOverBudget) \<in> set (dispositions deepNoWeb ?items (initial (Some [])))"
    by (simp add: d)
  from zero_budget_skips_and_interrupts [OF z, of ?items "Some []" onTime] r m
  have "res_interrupted res \<and> warnings st' = 1"
    by blast
  with z d r show ?thesis by blast
qed

text \<open>
  C3, as the claim states it, fails: in a quick run with a budget of one call,
  approval required and a recorded rejection of \<open>firecrawl_search\<close>, two calls of that
  tool are both counted (N = 2 > B = 1), but each turn ends at the rejection before the
  budget check: the result has \<open>interrupted = false\<close> and no warning was emitted.
\<close>

theorem over_budget_counterexample:
  "0 < maxToolCalls quickRejected \<and> maxToolCalls quickRejected < 2
   \<and> runAnalysis quickRejected (Some [])
       (Stream [Yield atStart searchCall, Yield later searchCall, Yield later closing]) onTime
     = Inr (\<lparr>report = ''Summary.'', checkpointId = None, res_interrupted = False,
             progress = Fin 100, needsApproval = None, approvalId = None, toolName = None,
             toolArgs = None\<rparr>,
            \<lparr>toolCallCount = 2, hasWarned = False, interrupted = False,
             lastCheckpointId = None, finalOutput = ''Summary.'',
             pendingApprovals = Some [], effects = []\<rparr>)"
  by (simp add: run_defs example_defs consume.simps(3))

text \<open>
  C3, amended. For a positive budget B: every turn on a \<open>tool_use\<close> event entered
  after B calls were counted ends without executing the call, at the \<open>continue\<close> of the
  budget check, at the timeout, or (only with approval required) at the rejection or
  suspension of the approval gate. The limit warning is emitted at most once in a run;
  when some call reaches the budget check above the budget, and in particular when no
  approval is required and the calls counted, N, exceed B, the result has
  \<open>interrupted = true\<close> and the warning was emitted exactly once. A call over the
  budget does not end the loop: after it the next event of the stream is processed, and
  the report holds the text of every assistant message whose turn got past the timeout
  check, those after the budget was exceeded included.
\<close>

theorem over_budget_calls_are_skipped:
  assumes "0 < maxToolCalls p"
  shows "(\<forall>pre ev f post. dispositions p items (initial pend) = pre @ (ev, f) # post
            \<and> isToolUse ev \<and> maxToolCalls p \<le> int (length (filter isCall pre))
          \<longrightarrow> f = ContinueOverBudget \<or> f = Break
              \<or> requireToolApprovalOf p \<and> (f = ContinueRejected \<or> (\<exists>e. f = Throw e)))
   \<and> (\<forall>res st'. runAnalysis p pend (Stream items) fin = Inr (res, st') \<longrightarrow>
          warnings st' \<le> 1
          \<and> ((\<exists>ev. (ev, ContinueOverBudget) \<in> set (dispositions p items (initial pend)))
               \<longrightarrow> res_interrupted res \<and> warnings st' = 1)
          \<and> (\<not> requireToolApprovalOf p \<and> maxToolCalls p < int (toolCallCount st')
               \<longrightarrow> res_interrupted res \<and> warnings st' = 1)
          \<and> report res = concat (map spoken (dispositions p items (initial pend))))
   \<and> (\<forall>pre ev. dispositions p items (initial pend) = pre @ [(ev, ContinueOverBudget)]
          \<longrightarrow> length items = length pre + 1
              \<or> (\<exists>conc. items ! (length pre + 1) = Raise conc))"
proof -
  let ?ds = "dispositions p items (initial pend)"
  let ?st = "snd (consume p items (initial pend))"
  have coh: "coherent ?st" using coherent_initial by (rule consume_coherent)
  have skipped: "f = ContinueOverBudget \<or> f = Break
      \<or> requireToolApprovalOf p \<and> (f = ContinueRejected \<or> (\<exists>e. f = Throw e))"
    if split: "?ds = pre @ (ev, f) # post" and tu: "isToolUse ev"
      and full: "maxToolCalls p \<le> int (length (filter isCall pre))"
    for pre ev f post
  proof -
    from dispositions_split [OF split] obtain r st1 where
      turn: "fst (body p r ev st1) = f" and
      cnt: "toolCallCount st1 = toolCallCount (initial pend) + length (filter isCall pre)"
      by blast
    from cnt full have "maxToolCalls p \<le> int (toolCallCount st1)"
      by (simp add: initial_def)
    from tool_use_at_budget [OF tu this, of r] turn show ?thesis by simp
  qed
  have result: "warnings st' \<le> 1
      \<and> ((\<exists>ev. (ev, ContinueOverBudget) \<in> set ?ds) \<longrightarrow> res_interrupted res \<and> warnings st' = 1)
      \<and> (\<not> requireToolApprovalOf p \<and> maxToolCalls p < int (toolCallCount st')
           \<longrightarrow> res_interrupted res \<and> warnings st' = 1)
      \<and> report res = concat (map spoken ?ds)"
    if run: "runAnalysis p pend (Stream items) fin = Inr (res, st')" for res st'
  proof -
    note keeps = runAnalysis_keeps [OF run]
    have w: "warnings st' \<le> 1" using coh keeps by (simp add: coherent_def)
    have warned: "res_interrupted res \<and> warnings st' = 1" if "hasWarned ?st"
      using that coh keeps by (simp add: coherent_def)
    have a: "res_interrupted res \<and> warnings st' = 1"
      if "\<exists>ev. (ev, ContinueOverBudget) \<in> set ?ds"
      using that consume_over_budget [OF coherent_initial, of _ p items pend] warned by blast
    have b: "res_interrupted res \<and> warnings st' = 1"
      if gate: "\<not> requireToolApprovalOf p" and n: "maxToolCalls p < int (toolCallCount st')"
    proof -
      have "maxToolCalls p < int (toolCallCount (initial pend)) \<longrightarrow> hasWarned (initial pend)"
        using assms by (simp add: initial_def)
      from consume_counter_warned [OF gate this, of items] n keeps have "hasWarned ?st"
        by simp
      then show ?thesis by (rule warned)
    qed
    have c: "report res = concat (map spoken ?ds)"
      using keeps consume_output [of p items "initial pend"] by (simp add: initial_def)
    from w a b c show ?thesis by blast
  qed
  have goes_on: "length items = length pre + 1 \<or> (\<exists>conc. items ! (length pre + 1) = Raise conc)"
    if "?ds = pre @ [(ev, ContinueOverBudget)]" for pre ev
    using that by (intro dispositions_go_on [of p items "initial pend" pre ev ContinueOverBudget])
      simp_all
  from skipped result goes_on show ?thesis by blast
qed
theorem over_budget_calls_are_skipped_witness:
  "0 < maxToolCalls quickOpen
   \<and> dispositions quickOpen
       [Yield atStart calcCall, Yield later calcCall, Yield later closing, Yield later calcCall]
       (initial (Some []))
     = [(calcCall, Next), (calcCall, ContinueOverBudget), (closing, Next),
        (calcCall, ContinueOverBudget)]
   \<and> (\<exists>res st'. runAnalysis quickOpen (Some [])
          (Stream [Yield atStart calcCall, Yield later calcCall, Yield later closing,
                   Yield later calcCall]) onTime
          = Inr (res, st')
        \<and> res_interrupted res \<and> warnings st' = 1 \<and> report res = ''Summary.'')"
proof -
  let ?items = "[Yield atStart calcCall, Yield later calcCall, Yield later closing,
                 Yield later calcCall]"
  have b: "0 < maxToolCalls quickOpen"
    by (simp add: run_defs example_defs)
  have d: "dispositions quickOpen ?items (initial (Some []))
     = [(calcCall, Next), (calcCall, ContinueOverBudget), (closing, Next),
        (calcCall, ContinueOverBudget)]"
    by (simp add: run_defs example_defs dispositions.simps(3))
  have s: "concat (map spoken [(calcCall, Next), (calcCall, ContinueOverBudget), (closing, Next),
        (calcCall, ContinueOverBudget)]) = ''Summary.''"
    by (simp add: example_defs)
  have "\<exists>res st'. runAnalysis quickOpen (Some []) (Stream ?items) onTime = Inr (res, st')"
    by (simp add: run_defs example_defs consume.simps(3))
  then obtain res st' where
    r: "runAnalysis quickOpen (Some []) (Stream ?items) onTime = Inr (res, st')"
    by blast
  have m: "(calcCall, ContinueOverBudget) \<in> set (dispositions quickOpen ?items (initial (Some [])))"
    by (simp add: d)
  from over_budget_calls_are_skipped [OF b, of ?items "Some []" onTime] r m
  have "res_interrupted res \<and> warnings st' = 1
      \<and> report res = concat (map spoken (dispositions quickOpen ?items (initial (Some []))))"
    by blast
  with d s have "res_interrupted res \<and> warnings st' = 1 \<and> report res = ''Summary.''"
    by simp
  with b d r show ?thesis by blast
qed

subsection \<open>Pending approvals\<close>

text \<open>A throwing turn has put exactly one entry, under the approval id it throws, into
  the pending table.\<close>

lemma gate_throw:
  "approvalGate p r tn targs st = (Throw e, st') \<Longrightarrow>
   \<exists>table entry. pendingApprovals st = Some table
     \<and> pendingApprovals st' = Some (AList.update (err_approvalId e) entry table)
     \<and> pa_sessionId entry = err_sessionId e \<and> pa_toolName entry = err_toolName e"
  by (auto simp add: approvalGate_def split: option.splits if_splits)

lemma error_throw:
  "errorGate p r msg st = (Throw e, st') \<Longrightarrow>
   \<exists>table entry. pendingApprovals st = Some table
     \<and> pendingApprovals st' = Some (AList.update (err_approvalId e) entry table)
     \<and> pa_sessionId entry = err_sessionId e \<and> pa_toolName entry = err_toolName e"
  by (auto simp add: errorGate_def Let_def split: option.splits if_splits)

lemma body_throw:
  assumes "body p r ev st = (Throw e, st')"
  shows "\<exists>table entry. pendingApprovals st = Some table
     \<and> pendingApprovals st' = Some (AList.update (err_approvalId e) entry table)
     \<and> pa_sessionId entry = err_sessionId e \<and> pa_toolName entry = err_toolName e"
proof (cases "timeout p < elapsed r")
  case True
  with assms show ?thesis by (simp add: body_timeout)
next
  case False
  then have le: "elapsed r \<le> timeout p" by simp
  show ?thesis
  proof (cases ev)
    case (ToolUse tn a b c d)
    let ?st1 = "st\<lparr>toolCallCount := toolCallCount st + 1\<rparr>"
    obtain f st2 where g: "approvalGate p r tn (extractArgs a b c d) ?st1 = (f, st2)"
      by (cases "approvalGate p r tn (extractArgs a b c d) ?st1")
    have "f = Throw e \<and> st2 = st'"
    proof (cases "f = Next")
      case True
      with assms g le ToolUse have "budgetCheck p st2 = (Throw e, st')"
        by (simp add: body_tool_use)
      then show ?thesis by (simp add: budgetCheck_def split: if_splits)
    next
      case False
      with assms g le ToolUse show ?thesis
        by (cases f) (simp_all add: body_tool_use)
    qed
    with g gate_throw [of p r tn "extractArgs a b c d" ?st1 e st'] show ?thesis by simp
  next
    case (ErrorEvent msg)
    with assms le error_throw [of p r msg st e st'] show ?thesis by (simp add: body_error)
  next
    case (Message role cs)
    with assms le show ?thesis by (simp add: body_message)
  next
    case OtherEvent
    with assms le show ?thesis by (simp add: body_other)
  qed
qed

lemma consume_suspended:
  "consume p items st = (Suspended e, st') \<Longrightarrow>
   \<exists>table entry. pendingApprovals st = Some table
     \<and> pendingApprovals st' = Some (AList.update (err_approvalId e) entry table)
     \<and> pa_sessionId entry = err_sessionId e \<and> pa_toolName entry = err_toolName e"
proof (induction items arbitrary: st)
  case Nil
  then show ?case by simp
next
  case (Cons it rest)
  show ?case
  proof (cases it)
    case (Yield r ev)
    obtain f st1 where b: "body p r ev st = (f, st1)" by (cases "body p r ev st")
    show ?thesis
    proof (cases "\<exists>e0. f = Throw e0")
      case True
      with b Cons.prems have "body p r ev st = (Throw e, st')"
        by (auto simp add: Yield consume_Yield)
      then show ?thesis by (rule body_throw)
    next
      case False
      with b Cons.prems have rest: "consume p rest st1 = (Suspended e, st')"
        by (auto simp add: Yield consume_Yield split: flow.splits if_splits)
      from False b have "pendingApprovals st1 = pendingApprovals st"
        using body_pending_frame [of p r ev st] by simp
      with Cons.IH [OF rest] show ?thesis by simp
    qed
  next
    case (Raise conc)
    with Cons.prems show ?thesis by simp
  qed
qed

lemma update_fresh: "k \<notin> fst ` set al \<Longrightarrow> AList.update k v al = al @ [(k, v)]"
  by (induction al) auto

lemma outstanding_fresh:
  "k \<notin> fst ` set table \<Longrightarrow> pa_sessionId entry = sid \<Longrightarrow> pa_toolName entry = n \<Longrightarrow>
   outstanding sid n (AList.update k entry table) = outstanding sid n table + 1"
  by (simp add: update_fresh outstanding_def)

text \<open>
  C4, as the claim states it, fails: session \<open>s1\<close> with approval required and no
  decision recorded calls \<open>firecrawl_search\<close> in a first run, which suspends and leaves
  one pending approval; a second run of the same session on that table, still with no
  decision, calls the tool again and leaves a second pending approval for the same
  session and tool.
\<close>

theorem second_pending_counterexample:
  "approvedTools deepGated = Some []
   \<and> runAnalysis deepGated (Some []) (Stream [Yield atStart searchCall]) onTime
     = Inr (\<lparr>report = [], checkpointId = Some ''cp1'', res_interrupted = True,
             progress = Fin 2, needsApproval = Some True,
             approvalId = Some ''approval_1_abc'', toolName = Some ''firecrawl_search'',
             toolArgs = Some (JObj [(''query'', JStr ''crm'')])\<rparr>,
            \<lparr>toolCallCount = 1, hasWarned = False, interrupted = False,
             lastCheckpointId = None, finalOutput = [],
             pendingApprovals = Some
               [(''approval_1_abc'',
                 \<lparr>pa_approvalId = ''approval_1_abc'', pa_sessionId = ''s1'',
                  pa_toolName = ''firecrawl_search'',
                  pa_toolArgs = JObj [(''query'', JStr ''crm'')], pa_timestamp = 1\<rparr>)],
             effects = [CreateCheckpoint ApprovalCkpt]\<rparr>)
   \<and> runAnalysis deepGated
       (Some [(''approval_1_abc'',
                 \<lparr>pa_approvalId = ''approval_1_abc'', pa_sessionId = ''s1'',
                  pa_toolName = ''firecrawl_search'',
                  pa_toolArgs = JObj [(''query'', JStr ''crm'')], pa_timestamp = 1\<rparr>)])
       (Stream [Yield later searchCall]) onTime
     = Inr (\<lparr>report = [], checkpointId = Some ''cp2'', res_interrupted = True,
             progress = Fin 2, needsApproval = Some True,
             approvalId = Some ''approval_2_xyz'', toolName = Some ''firecrawl_search'',
             toolArgs = Some (JObj [(''query'', JStr ''crm'')])\<rparr>,
            \<lparr>toolCallCount = 1, hasWarned = False, interrupted = False,
             lastCheckpointId = None, finalOutput = [],
             pendingApprovals = Some
               [(''approval_1_abc'',
                 \<lparr>pa_approvalId = ''approval_1_abc'', pa_sessionId = ''s1'',
                  pa_toolName = ''firecrawl_search'',
                  pa_toolArgs = JObj [(''query'', JStr ''crm'')], pa_timestamp = 1\<rparr>),
                (''approval_2_xyz'',
                 \<lparr>pa_approvalId = ''approval_2_xyz'', pa_sessionId = ''s1'',
                  pa_toolName = ''firecrawl_search'',
                  pa_toolArgs = JObj [(''query'', JStr ''crm'')], pa_timestamp = 2\<rparr>)],
             effects = [CreateCheckpoint ApprovalCkpt]\<rparr>)
   \<and> outstanding ''s1'' ''firecrawl_search''
       [(''approval_1_abc'',
                 \<lparr>pa_approvalId = ''approval_1_abc'', pa_sessionId = ''s1'',
                  pa_toolName = ''firecrawl_search'',
                  pa_toolArgs = JObj [(''query'', JStr ''crm'')], pa_timestamp = 1\<rparr>),
                (''approval_2_xyz'',
                 \<lparr>pa_approvalId = ''approval_2_xyz'', pa_sessionId = ''s1'',
                  pa_toolName = ''firecrawl_search'',
                  pa_toolArgs = JObj [(''query'', JStr ''crm'')], pa_timestamp = 2\<rparr>)] = 2"
  by (simp add: run_defs example_defs consume.simps(3) outstanding_def)
text \<open>
  C4, amended. One run creates at most one pending approval, and only in the turn that
  suspends it: the pending table after a run is the table before it, or, when the
  result asks for approval, that table with one entry set under the approval id of the
  result. The table is keyed by the approval id and the gate looks only at the
  decision table, so a call of a gated tool whose session and tool have no recorded
  decision always adds an entry, also when the table holds pending approvals of the same
  session and tool already: under a new approval id their number goes up by one.
\<close>

theorem one_pending_per_run:
  "(\<forall>res st'. runAnalysis p pend (Stream items) fin = Inr (res, st') \<longrightarrow>
       pendingApprovals st' = pend \<and> needsApproval res = None
       \<or> (\<exists>table entry aid. pend = Some table \<and> needsApproval res = Some True
             \<and> approvalId res = Some aid \<and> toolName res = Some (pa_toolName entry)
             \<and> pendingApprovals st' = Some (AList.update aid entry table)))
   \<and> (requireToolApprovalOf p \<and> startsWith n ''firecrawl_'' \<and> sessionId p = Some sid
        \<and> sid \<noteq> [] \<and> approvedTools p = Some appr \<and> map_of appr (sid @ '':'' @ n) = None
        \<and> elapsed r \<le> timeout p \<and> pendingApprovals st = Some table
        \<and> ''approval_'' @ idSuffix r \<notin> fst ` set table
      \<longrightarrow> (\<exists>e st2 table2. body p r (ToolUse (Some n) a b c d) st = (Throw e, st2)
             \<and> pendingApprovals st2 = Some table2
             \<and> outstanding sid n table2 = outstanding sid n table + 1))"
proof -
  have run: "pendingApprovals st' = pend \<and> needsApproval res = None
       \<or> (\<exists>table entry aid. pend = Some table \<and> needsApproval res = Some True
             \<and> approvalId res = Some aid \<and> toolName res = Some (pa_toolName entry)
             \<and> pendingApprovals st' = Some (AList.update aid entry table))"
    if r: "runAnalysis p pend (Stream items) fin = Inr (res, st')" for res st'
  proof (cases rule: runAnalysis_cases [of p pend items fin])
    case busy
    with r show ?thesis by simp
  next
    case (approval e)
    let ?st = "snd (consume p items (initial pend))"
    from approval(1) have "consume p items (initial pend) = (Suspended e, ?st)"
      by (cases "consume p items (initial pend)") simp
    from consume_suspended [OF this] obtain table entry where
      t: "pend = Some table"
      "pendingApprovals ?st = Some (AList.update (err_approvalId e) entry table)"
      "pa_toolName entry = err_toolName e"
      by (auto simp add: initial_def)
    from approval(2) r approvalResponse_frame [of p fin e ?st]
    have "needsApproval res = Some True \<and> approvalId res = Some (err_approvalId e)
        \<and> toolName res = Some (err_toolName e) \<and> pendingApprovals st' = pendingApprovals ?st"
      by (auto simp add: fst_def snd_def split: prod.splits)
    with t have "pend = Some table \<and> needsApproval res = Some True
        \<and> approvalId res = Some (err_approvalId e) \<and> toolName res = Some (pa_toolName entry)
        \<and> pendingApprovals st' = Some (AList.update (err_approvalId e) entry table)"
      by simp
    then show ?thesis by blast
  next
    case failed
    let ?st = "snd (consume p items (initial pend))"
    from failed(1) have "\<forall>e. fst (consume p items (initial pend)) \<noteq> Suspended e" by simp
    from consume_pending_frame [OF this] have "pendingApprovals ?st = pend"
      by (simp add: initial_def)
    moreover from failed(2) r
    have "fst (finalize p fin (?st\<lparr>interrupted := True\<rparr>)) = res"
      "snd (finalize p fin (?st\<lparr>interrupted := True\<rparr>)) = st'"
      by (metis sum.inject(2) fst_conv, metis sum.inject(2) snd_conv)
    ultimately show ?thesis
      using finalize_frame [of p fin "?st\<lparr>interrupted := True\<rparr>"] by auto
  next
    case ended
    let ?st = "snd (consume p items (initial pend))"
    from ended(1) have "\<forall>e. fst (consume p items (initial pend)) \<noteq> Suspended e" by auto
    from consume_pending_frame [OF this] have "pendingApprovals ?st = pend"
      by (simp add: initial_def)
    moreover from ended(2) r
    have "fst (finalize p fin ?st) = res" "snd (finalize p fin ?st) = st'"
      by (metis sum.inject(2) fst_conv, metis sum.inject(2) snd_conv)
    ultimately show ?thesis
      using finalize_frame [of p fin ?st] by auto
  qed
  have again: "\<exists>e st2 table2. body p r (ToolUse (Some n) a b c d) st = (Throw e, st2)
             \<and> pendingApprovals st2 = Some table2
             \<and> outstanding sid n table2 = outstanding sid n table + 1"
    if h: "requireToolApprovalOf p" "startsWith n ''firecrawl_''" "sessionId p = Some sid"
      "sid \<noteq> []" "approvedTools p = Some appr" "map_of appr (sid @ '':'' @ n) = None"
      "elapsed r \<le> timeout p" "pendingApprovals st = Some table"
      "''approval_'' @ idSuffix r \<notin> fst ` set table"
  proof -
    let ?st1 = "st\<lparr>toolCallCount := toolCallCount st + 1\<rparr>"
    let ?entry = "\<lparr>pa_approvalId = ''approval_'' @ idSuffix r, pa_sessionId = sid,
               pa_toolName = n, pa_toolArgs = extractArgs a b c d, pa_timestamp = now r\<rparr>"
    have "pendingApprovals ?st1 = Some table" using h(8) by simp
    from gate_unseen [OF h(1) h(2) h(3) h(4) this h(5) h(6), of r "extractArgs a b c d"] h(7)
    have turn: "\<exists>e. body p r (ToolUse (Some n) a b c d) st =
        (Throw e, ?st1\<lparr>pendingApprovals :=
            Some (AList.update (''approval_'' @ idSuffix r) ?entry table),
          effects := effects ?st1 @ [CreateCheckpoint ApprovalCkpt]\<rparr>)"
      by (simp add: body_tool_use)
    have "outstanding sid n (AList.update (''approval_'' @ idSuffix r) ?entry table)
        = outstanding sid n table + 1"
      using h(9) by (intro outstanding_fresh) simp_all
    with turn show ?thesis by auto
  qed
  from run again show ?thesis by blast
qed

theorem one_pending_per_run_witness:
  "(\<exists>res st'. runAnalysis deepGated (Some askedBefore) (Stream [Yield later searchCall]) onTime
        = Inr (res, st')
      \<and> needsApproval res = Some True \<and> approvalId res = Some ''approval_2_xyz''
      \<and> (\<exists>entry. pendingApprovals st' = Some (AList.update ''approval_2_xyz'' entry askedBefore)))
   \<and> requireToolApprovalOf deepGated \<and> elapsed later \<le> timeout deepGated
   \<and> ''approval_'' @ idSuffix later \<notin> fst ` set askedBefore
   \<and> outstanding ''s1'' ''firecrawl_search'' askedBefore = 1
   \<and> (\<exists>e st2 table2. body deepGated later searchCall (initial (Some askedBefore)) = (Throw e, st2)
         \<and> pendingApprovals st2 = Some table2
         \<and> outstanding ''s1'' ''firecrawl_search'' table2 = 2)"
proof -
  have run: "\<exists>res st'. runAnalysis deepGated (Some askedBefore) (Stream [Yield later searchCall]) onTime
        = Inr (res, st') \<and> needsApproval res = Some True \<and> approvalId res = Some ''approval_2_xyz''"
    by (simp add: run_defs example_defs consume.simps(3))
  have h1: "requireToolApprovalOf deepGated"
    by (simp add: run_defs example_defs)
  have h2: "startsWith ''firecrawl_search'' ''firecrawl_''"
    by (simp add: startsWith_def)
  have h3: "sessionId deepGated = Some ''s1'' \<and> ''s1'' \<noteq> [] \<and> approvedTools deepGated = Some []
      \<and> map_of ([] :: (string \<times> decision) list) (''s1'' @ '':'' @ ''firecrawl_search'') = None"
    by (simp add: deepGated_def)
  have h4: "elapsed later \<le> timeout deepGated"
    by (simp add: run_defs example_defs)
  have h5: "pendingApprovals (initial (Some askedBefore)) = Some askedBefore"
    by (simp add: initial_def)
  have h6: "''approval_'' @ idSuffix later \<notin> fst ` set askedBefore"
    by (simp add: example_defs)
  have one: "outstanding ''s1'' ''firecrawl_search'' askedBefore = 1"
    by (simp add: outstanding_def askedBefore_def)
  note main = one_pending_per_run [of deepGated "Some askedBefore" "[Yield later searchCall]"
      onTime "''firecrawl_search''" "''s1''" "[]" later "initial (Some askedBefore)" askedBefore
      None None "Some (JObj [(''query'', JStr ''crm'')])" None]
  from main run have part1: "\<exists>res st'.
      runAnalysis deepGated (Some askedBefore) (Stream [Yield later searchCall]) onTime
        = Inr (res, st')
      \<and> needsApproval res = Some True \<and> approvalId res = Some ''approval_2_xyz''
      \<and> (\<exists>entry. pendingApprovals st' = Some (AList.update ''approval_2_xyz'' entry askedBefore))"
    by fastforce
  have hyp: "requireToolApprovalOf deepGated \<and> startsWith ''firecrawl_search'' ''firecrawl_''
        \<and> sessionId deepGated = Some ''s1''
        \<and> ''s1'' \<noteq> [] \<and> approvedTools deepGated = Some []
        \<and> map_of ([] :: (string \<times> decision) list) (''s1'' @ '':'' @ ''firecrawl_search'') = None
        \<and> elapsed later \<le> timeout deepGated
        \<and> pendingApprovals (initial (Some askedBefore)) = Some askedBefore
        \<and> ''approval_'' @ idSuffix later \<notin> fst ` set askedBefore"
    using h1 h2 h3 h4 h5 h6 by blast
  from main [THEN conjunct2, THEN mp, OF hyp] obtain e st2 table2 where
    "body deepGated later (ToolUse (Some ''firecrawl_search'') None None
        (Some (JObj [(''query'', JStr ''crm'')])) None) (initial (Some askedBefore)) = (Throw e, st2)"
    "pendingApprovals st2 = Some table2"
    "outstanding ''s1'' ''firecrawl_search'' table2
       = outstanding ''s1'' ''firecrawl_search'' askedBefore + 1"
    by blast
  with one
  have part2: "\<exists>e st2 table2. body deepGated later searchCall (initial (Some askedBefore)) = (Throw e, st2)
         \<and> pendingApprovals st2 = Some table2
         \<and> outstanding ''s1'' ''firecrawl_search'' table2 = 2"
    unfolding searchCall_def by auto
  from part1 part2 h1 h4 h6 one show ?thesis by blast
qed

subsection \<open>Checkpoints on the way out\<close>

text \<open>Inside the loop only the approval gate of a \<open>tool_use\<close> asks for a checkpoint, in
  the turn that suspends the run, and \<open>lastCheckpointId\<close> is never written.\<close>

lemma consume_checkpoints:
  assumes "checkpointCalls st = []" and "lastCheckpointId st = None"
  shows "lastCheckpointId (snd (consume p items st)) = None
     \<and> (checkpointCalls (snd (consume p items st)) = []
         \<and> (\<forall>e. fst (consume p items st) = Suspended e \<longrightarrow> err_checkpointId e = None)
        \<or> checkpointCalls (snd (consume p items st)) = [CreateCheckpoint ApprovalCkpt]
         \<and> (\<exists>e. fst (consume p items st) = Suspended e))"
  using assms
proof (induction items arbitrary: st)
  case Nil
  then show ?case by simp
next
  case (Cons it rest)
  show ?case
  proof (cases it)
    case (Yield r ev)
    note IH = Cons.IH [of "snd (body p r ev st)"]
    show ?thesis
      using Cons.prems
    proof (cases rule: body_cases [of p r ev st])
      case timeout
      with Cons.prems show ?thesis
        by (simp add: Yield consume_Yield checkpointCalls_def)
    next
      case rejected
      with Cons.prems IH show ?thesis
        by (simp add: Yield consume_Yield checkpointCalls_def)
    next
      case (suspended e x)
      with Cons.prems show ?thesis
        by (simp add: Yield consume_Yield checkpointCalls_def)
    next
      case within
      with Cons.prems IH show ?thesis
        by (simp add: Yield consume_Yield checkpointCalls_def)
    next
      case over
      with Cons.prems IH show ?thesis
        by (simp add: Yield consume_Yield checkpointCalls_def)
    next
      case warned
      with Cons.prems IH show ?thesis
        by (simp add: Yield consume_Yield checkpointCalls_def)
    next
      case error
      with Cons.prems IH show ?thesis
        by (simp add: Yield consume_Yield checkpointCalls_def)
    next
      case (errorSuspended e x)
      with Cons.prems show ?thesis
        by (simp add: Yield consume_Yield checkpointCalls_def)
    next
      case passed
      with Cons.prems IH show ?thesis
        by (simp add: Yield consume_Yield checkpointCalls_def)
    qed
  next
    case (Raise conc)
    with Cons.prems show ?thesis by simp
  qed
qed

lemma approvalResponse_checkpoints:
  "checkpointCalls (snd (approvalResponse p fin e st)) =
     checkpointCalls st
       @ (if truthyStr (err_checkpointId e) then [] else [CreateCheckpoint FallbackCkpt])
   \<and> checkpointId (fst (approvalResponse p fin e st)) =
       (if truthyStr (err_checkpointId e) then err_checkpointId e
        else case finCreated fin of Some c \<Rightarrow> Some c | None \<Rightarrow> lastCheckpointId st)"
  by (simp add: approvalResponse_def saveCheckpoint_def checkpointCalls_def Let_def)

text \<open>
  C9, as the claim states it, fails: with approval required and no decision recorded,
  an \<open>error\<close> event that names \<open>firecrawl_search\<close> suspends the run with no checkpoint
  in the \<open>PendingApprovalError\<close>; on its way out \<open>runAnalysis\<close> then asks for a
  checkpoint of its own, and the approval result carries that checkpoint's id.
\<close>

theorem suspension_checkpoint_counterexample:
  "body deepGated atStart searchError (initial (Some []))
     = (Throw \<lparr>err_approvalId = ''approval_1_abc'', err_toolName = ''firecrawl_search'',
               err_toolArgs =
                 JObj [(''note'', JStr ''Tool will be called with corrected parameters'')],
               err_sessionId = ''s1'', err_checkpointId = None\<rparr>,
        \<lparr>toolCallCount = 0, hasWarned = False, interrupted = False,
         lastCheckpointId = None, finalOutput = [],
         pendingApprovals = Some
           [(''approval_1_abc'',
             \<lparr>pa_approvalId = ''approval_1_abc'', pa_sessionId = ''s1'',
              pa_toolName = ''firecrawl_search'',
              pa_toolArgs = JObj [(''note'', JStr ''Tool parameters will be fixed after approval'')],
              pa_timestamp = 1\<rparr>)],
         effects = []\<rparr>)
   \<and> runAnalysis deepGated (Some []) (Stream [Yield atStart searchError]) onTime
     = Inr (\<lparr>report = [], checkpointId = Some ''cp9'', res_interrupted = True,
             progress = Fin 2, needsApproval = Some True,
             approvalId = Some ''approval_1_abc'', toolName = Some ''firecrawl_search'',
             toolArgs =
               Some (JObj [(''note'', JStr ''Tool will be called with corrected parameters'')])\<rparr>,
            \<lparr>toolCallCount = 0, hasWarned = False, interrupted = False,
             lastCheckpointId = Some ''cp9'', finalOutput = [],
             pendingApprovals = Some
               [(''approval_1_abc'',
                 \<lparr>pa_approvalId = ''approval_1_abc'', pa_sessionId = ''s1'',
                  pa_toolName = ''firecrawl_search'',
                  pa_toolArgs =
                    JObj [(''note'', JStr ''Tool parameters will be fixed after approval'')],
                  pa_timestamp = 1\<rparr>)],
             effects = [CreateCheckpoint FallbackCkpt]\<rparr>)"
  by (simp add: run_defs example_defs consume.simps(3))

text \<open>A throwing turn on a \<open>tool_use\<close> event is a throw of the approval gate, which
  asked for a checkpoint in that turn and passes its id on.\<close>

lemma gate_throw_checkpoint:
  "approvalGate p r tn targs st = (Throw e, st') \<Longrightarrow>
   err_checkpointId e = created r
   \<and> effects st' = effects st @ [CreateCheckpoint ApprovalCkpt]
   \<and> lastCheckpointId st' = lastCheckpointId st"
  by (auto simp add: approvalGate_def split: option.splits if_splits)

lemma tool_throw_checkpoint:
  assumes "body p r (ToolUse tn a b c d) st = (Throw e, st2)"
  shows "err_checkpointId e = created r
   \<and> effects st2 = effects st @ [CreateCheckpoint ApprovalCkpt]
   \<and> lastCheckpointId st2 = lastCheckpointId st"
proof (cases "timeout p < elapsed r")
  case True
  with assms show ?thesis by (simp add: body_timeout)
next
  case False
  then have le: "elapsed r \<le> timeout p" by simp
  let ?st1 = "st\<lparr>toolCallCount := toolCallCount st + 1\<rparr>"
  obtain f st3 where g: "approvalGate p r tn (extractArgs a b c d) ?st1 = (f, st3)"
    by (cases "approvalGate p r tn (extractArgs a b c d) ?st1")
  have "f = Throw e \<and> st3 = st2"
  proof (cases "f = Next")
    case True
    with assms g le have "budgetCheck p st3 = (Throw e, st2)"
      by (simp add: body_tool_use)
    then show ?thesis by (simp add: budgetCheck_def split: if_splits)
  next
    case False
    with assms g le show ?thesis
      by (cases f) (simp_all add: body_tool_use)
  qed
  with g gate_throw_checkpoint [of p r tn "extractArgs a b c d" ?st1 e st2] show ?thesis
    by simp
qed

text \<open>
  C9, amended. A run that ends in an approval result never makes the automatic save of
  the interrupted path. When the \<open>PendingApprovalError\<close> carries a checkpoint id (the
  id of the checkpoint that the gate of a \<open>tool_use\<close> created in the suspending turn),
  that checkpoint is the only one asked for and the result carries that id. When it
  carries none (the gate's checkpoint failed, or the error came from an \<open>error\<close> event,
  whose branch asks for no checkpoint and throws with an absent checkpoint id),
  \<open>runAnalysis\<close> asks for one fallback checkpoint on its way out, and the result carries
  the id of that checkpoint if it was created.
\<close>

theorem suspension_checkpoints:
  "(\<forall>res st'. runAnalysis p pend (Stream items) fin = Inr (res, st')
        \<and> needsApproval res = Some True \<longrightarrow>
      CreateCheckpoint AutoCkpt \<notin> set (effects st')
      \<and> (\<exists>e. fst (consume p items (initial pend)) = Suspended e
            \<and> (truthyStr (err_checkpointId e)
                 \<and> checkpointCalls st' = [CreateCheckpoint ApprovalCkpt]
                 \<and> checkpointId res = err_checkpointId e
               \<or> \<not> truthyStr (err_checkpointId e)
                 \<and> (checkpointCalls st' =
                      [CreateCheckpoint ApprovalCkpt, CreateCheckpoint FallbackCkpt]
                    \<or> checkpointCalls st' = [CreateCheckpoint FallbackCkpt])
                 \<and> checkpointId res = finCreated fin)))
   \<and> (\<forall>e st2. body p r (ErrorEvent msg) st = (Throw e, st2) \<longrightarrow>
         err_checkpointId e = None \<and> effects st2 = effects st)
   \<and> (\<forall>e st2 res st'. consume p pre (initial pend) = (Exhausted, st)
         \<and> body p r (ErrorEvent msg) st = (Throw e, st2)
         \<and> runAnalysis p pend (Stream (pre @ Yield r (ErrorEvent msg) # rest)) fin = Inr (res, st')
       \<longrightarrow> needsApproval res = Some True
           \<and> checkpointCalls st' = [CreateCheckpoint FallbackCkpt]
           \<and> checkpointId res = finCreated fin)
   \<and> (\<forall>e st2. body p r (ToolUse tn a b c d) st = (Throw e, st2) \<longrightarrow>
         err_checkpointId e = created r
         \<and> effects st2 = effects st @ [CreateCheckpoint ApprovalCkpt])
   \<and> (\<forall>e st2 res st'. consume p pre (initial pend) = (Exhausted, st)
         \<and> body p r (ToolUse tn a b c d) st = (Throw e, st2)
         \<and> runAnalysis p pend (Stream (pre @ Yield r (ToolUse tn a b c d) # rest)) fin
             = Inr (res, st')
       \<longrightarrow> needsApproval res = Some True
           \<and> (truthyStr (created r)
                \<and> checkpointCalls st' = [CreateCheckpoint ApprovalCkpt]
                \<and> checkpointId res = created r
              \<or> \<not> truthyStr (created r)
                \<and> checkpointCalls st' =
                     [CreateCheckpoint ApprovalCkpt, CreateCheckpoint FallbackCkpt]
                \<and> checkpointId res = finCreated fin))"
proof -
  have init: "checkpointCalls (initial pend) = []" "lastCheckpointId (initial pend) = None"
    by (simp_all add: checkpointCalls_def initial_def)
  have auto_free: "CreateCheckpoint AutoCkpt \<notin> set (effects s)"
    if "CreateCheckpoint AutoCkpt \<notin> set (checkpointCalls s)" for s
    using that by (simp add: checkpointCalls_def)
  have part1: "CreateCheckpoint AutoCkpt \<notin> set (effects st')
      \<and> (\<exists>e. fst (consume p items (initial pend)) = Suspended e
            \<and> (truthyStr (err_checkpointId e)
                 \<and> checkpointCalls st' = [CreateCheckpoint ApprovalCkpt]
                 \<and> checkpointId res = err_checkpointId e
               \<or> \<not> truthyStr (err_checkpointId e)
                 \<and> (checkpointCalls st' =
                      [CreateCheckpoint ApprovalCkpt, CreateCheckpoint FallbackCkpt]
                    \<or> checkpointCalls st' = [CreateCheckpoint FallbackCkpt])
                 \<and> checkpointId res = finCreated fin))"
    if run: "runAnalysis p pend (Stream items) fin = Inr (res, st')"
      and na: "needsApproval res = Some True" for res st'
  proof (cases rule: runAnalysis_cases [of p pend items fin])
    case busy
    with run show ?thesis by simp
  next
    case (approval e)
    let ?st = "snd (consume p items (initial pend))"
    from approval(2) run
    have eq: "fst (approvalResponse p fin e ?st) = res" "snd (approvalResponse p fin e ?st) = st'"
      by (metis sum.inject(2) fst_conv, metis sum.inject(2) snd_conv)
    note loop = consume_checkpoints [OF init, of p items]
    note out = approvalResponse_checkpoints [of p fin e ?st]
    have calls: "truthyStr (err_checkpointId e)
                 \<and> checkpointCalls st' = [CreateCheckpoint ApprovalCkpt]
                 \<and> checkpointId res = err_checkpointId e
               \<or> \<not> truthyStr (err_checkpointId e)
                 \<and> (checkpointCalls st' =
                      [CreateCheckpoint ApprovalCkpt, CreateCheckpoint FallbackCkpt]
                    \<or> checkpointCalls st' = [CreateCheckpoint FallbackCkpt])
                 \<and> checkpointId res = finCreated fin"
      using loop out eq approval(1)
      by (cases "truthyStr (err_checkpointId e)") (auto split: option.splits)
    then have "CreateCheckpoint AutoCkpt \<notin> set (checkpointCalls st')" by auto
    with calls auto_free approval(1) show ?thesis by blast
  next
    case failed
    let ?st = "(snd (consume p items (initial pend)))\<lparr>interrupted := True\<rparr>"
    from failed(2) run have "fst (finalize p fin ?st) = res"
      by (metis sum.inject(2) fst_conv)
    with na finalize_frame [of p fin ?st] show ?thesis by simp
  next
    case ended
    let ?st = "snd (consume p items (initial pend))"
    from ended(2) run have "fst (finalize p fin ?st) = res"
      by (metis sum.inject(2) fst_conv)
    with na finalize_frame [of p fin ?st] show ?thesis by simp
  qed
  have part2: "err_checkpointId e = None \<and> effects st2 = effects st"
    if t: "body p r (ErrorEvent msg) st = (Throw e, st2)" for e st2
  proof (cases "timeout p < elapsed r")
    case True
    with t show ?thesis by (simp add: body_timeout)
  next
    case False
    with t error_outcomes [of p r msg st] show ?thesis by (auto simp add: body_error)
  qed
  have part3: "needsApproval res = Some True
           \<and> checkpointCalls st' = [CreateCheckpoint FallbackCkpt]
           \<and> checkpointId res = finCreated fin"
    if pre: "consume p pre (initial pend) = (Exhausted, st)"
      and t: "body p r (ErrorEvent msg) st = (Throw e, st2)"
      and run: "runAnalysis p pend (Stream (pre @ Yield r (ErrorEvent msg) # rest)) fin
          = Inr (res, st')"
    for e st2 res st'
  proof -
    from consume_checkpoints [OF init, of p pre] pre
    have clean: "checkpointCalls st = []" "lastCheckpointId st = None" by simp_all
    from part2 [OF t] have none: "err_checkpointId e = None" and eff: "effects st2 = effects st"
      by simp_all
    from t have last: "lastCheckpointId st2 = lastCheckpointId st"
      by (cases rule: body_cases [of p r "ErrorEvent msg" st]) auto
    have "consume p (pre @ Yield r (ErrorEvent msg) # rest) (initial pend) = (Suspended e, st2)"
      using consume_append [OF pre] t by (simp add: consume_Yield)
    with run have "approvalResponse p fin e st2 = (res, st')"
      by (simp add: runAnalysis_def)
    then have eq: "fst (approvalResponse p fin e st2) = res"
      "snd (approvalResponse p fin e st2) = st'" by simp_all
    from approvalResponse_checkpoints [of p fin e st2] approvalResponse_frame [of p fin e st2]
      eq none eff clean last
    show ?thesis by (auto simp add: checkpointCalls_def split: option.splits)
  qed
  have part4: "err_checkpointId e = created r
         \<and> effects st2 = effects st @ [CreateCheckpoint ApprovalCkpt]"
    if t: "body p r (ToolUse tn a b c d) st = (Throw e, st2)" for e st2
    using tool_throw_checkpoint [OF t] by simp
  have part5: "needsApproval res = Some True
           \<and> (truthyStr (created r)
                \<and> checkpointCalls st' = [CreateCheckpoint ApprovalCkpt]
                \<and> checkpointId res = created r
              \<or> \<not> truthyStr (created r)
                \<and> checkpointCalls st' =
                     [CreateCheckpoint ApprovalCkpt, CreateCheckpoint FallbackCkpt]
                \<and> checkpointId res = finCreated fin)"
    if pre: "consume p pre (initial pend) = (Exhausted, st)"
      and t: "body p r (ToolUse tn a b c d) st = (Throw e, st2)"
      and run: "runAnalysis p pend (Stream (pre @ Yield r (ToolUse tn a b c d) # rest)) fin
          = Inr (res, st')"
    for e st2 res st'
  proof -
    from consume_checkpoints [OF init, of p pre] pre
    have clean: "checkpointCalls st = []" "lastCheckpointId st = None" by simp_all
    from tool_throw_checkpoint [OF t]
    have id: "err_checkpointId e = created r"
      and eff: "effects st2 = effects st @ [CreateCheckpoint ApprovalCkpt]"
      and last: "lastCheckpointId st2 = lastCheckpointId st"
      by simp_all
    from eff clean(1) have calls2: "checkpointCalls st2 = [CreateCheckpoint ApprovalCkpt]"
      by (simp add: checkpointCalls_def)
    have "consume p (pre @ Yield r (ToolUse tn a b c d) # rest) (initial pend)
        = (Suspended e, st2)"
      using consume_append [OF pre] t by (simp add: consume_Yield)
    with run have "approvalResponse p fin e st2 = (res, st')"
      by (simp add: runAnalysis_def)
    then have eq: "fst (approvalResponse p fin e st2) = res"
      "snd (approvalResponse p fin e st2) = st'" by simp_all
    from approvalResponse_checkpoints [of p fin e st2] approvalResponse_frame [of p fin e st2]
      eq id calls2 clean last
    show ?thesis by (auto split: option.splits)
  qed
  from part1 part2 part3 part4 part5 show ?thesis by blast
qed

theorem suspension_checkpoints_witness:
  "consume deepGated [] (initial (Some [])) = (Exhausted, initial (Some []))
   \<and> (\<exists>e st2. body deepGated atStart searchError (initial (Some [])) = (Throw e, st2)
         \<and> err_checkpointId e = None \<and> effects st2 = [])
   \<and> (\<exists>res st'. runAnalysis deepGated (Some []) (Stream [Yield atStart searchError]) onTime
          = Inr (res, st')
        \<and> needsApproval res = Some True
        \<and> checkpointCalls st' = [CreateCheckpoint FallbackCkpt]
        \<and> CreateCheckpoint AutoCkpt \<notin> set (effects st')
        \<and> checkpointId res = Some ''cp9'')
   \<and> (\<exists>e st2. body deepGated atStart searchCall (initial (Some [])) = (Throw e, st2)
         \<and> err_checkpointId e = Some ''cp1''
         \<and> effects st2 = [CreateCheckpoint ApprovalCkpt])
   \<and> (\<exists>res st'. runAnalysis deepGated (Some []) (Stream [Yield atStart searchCall]) onTime
          = Inr (res, st')
        \<and> needsApproval res = Some True
        \<and> checkpointCalls st' = [CreateCheckpoint ApprovalCkpt]
        \<and> checkpointId res = Some ''cp1'')"
proof -
  let ?err = "ErrorEvent ''firecrawl_search: invalid sources''"
  let ?args = "Some (JObj [(''query'', JStr ''crm'')])"
  let ?call = "ToolUse (Some ''firecrawl_search'') None None ?args None"
  have pre: "consume deepGated [] (initial (Some [])) = (Exhausted, initial (Some []))"
    by simp
  have "\<exists>e st2. body deepGated atStart ?err (initial (Some [])) = (Throw e, st2)"
    by (simp add: run_defs example_defs)
  then obtain e st2 where
    turn: "body deepGated atStart ?err (initial (Some [])) = (Throw e, st2)"
    by blast
  have "\<exists>res st'. runAnalysis deepGated (Some []) (Stream ([] @ Yield atStart ?err # [])) onTime
      = Inr (res, st')"
    by (simp add: run_defs example_defs consume.simps(3))
  then obtain res st' where
    r: "runAnalysis deepGated (Some []) (Stream ([] @ Yield atStart ?err # [])) onTime
      = Inr (res, st')"
    by blast
  have "\<exists>e st2. body deepGated atStart ?call (initial (Some [])) = (Throw e, st2)"
    by (simp add: run_defs example_defs)
  then obtain e2 st3 where
    turn2: "body deepGated atStart ?call (initial (Some [])) = (Throw e2, st3)"
    by blast
  have "\<exists>res st'. runAnalysis deepGated (Some []) (Stream ([] @ Yield atStart ?call # [])) onTime
      = Inr (res, st')"
    by (simp add: run_defs example_defs consume.simps(3))
  then obtain res2 st4 where
    r2: "runAnalysis deepGated (Some []) (Stream ([] @ Yield atStart ?call # [])) onTime
      = Inr (res2, st4)"
    by blast
  have made: "created atStart = Some ''cp1'' \<and> truthyStr (created atStart)"
    by (simp add: atStart_def)
  note main = suspension_checkpoints [where p = deepGated and pend = "Some []"
      and items = "[Yield atStart ?err]" and fin = onTime and r = atStart
      and msg = "''firecrawl_search: invalid sources''" and st = "initial (Some [])"
      and pre = "[]" and rest = "[]" and tn = "Some ''firecrawl_search''" and a = None
      and b = None and c = ?args and d = None]
  from main turn have none: "err_checkpointId e = None \<and> effects st2 = []"
    by (simp add: initial_def)
  from main pre turn r have asked:
    "needsApproval res = Some True \<and> checkpointCalls st' = [CreateCheckpoint FallbackCkpt]
     \<and> checkpointId res = finCreated onTime"
    by blast
  from main r asked have "CreateCheckpoint AutoCkpt \<notin> set (effects st')"
    by simp
  with r asked
  have first: "\<exists>res st'. runAnalysis deepGated (Some []) (Stream [Yield atStart searchError]) onTime
          = Inr (res, st')
        \<and> needsApproval res = Some True
        \<and> checkpointCalls st' = [CreateCheckpoint FallbackCkpt]
        \<and> CreateCheckpoint AutoCkpt \<notin> set (effects st')
        \<and> checkpointId res = Some ''cp9''"
    by (auto simp add: searchError_def onTime_def)
  from main turn2 made have carried:
    "err_checkpointId e2 = Some ''cp1'' \<and> effects st3 = [CreateCheckpoint ApprovalCkpt]"
    by (simp add: initial_def)
  from main pre turn2 r2 made
  have "needsApproval res2 = Some True
      \<and> checkpointCalls st4 = [CreateCheckpoint ApprovalCkpt]
      \<and> checkpointId res2 = Some ''cp1''"
    by auto
  with r2
  have second: "\<exists>res st'. runAnalysis deepGated (Some []) (Stream [Yield atStart searchCall]) onTime
          = Inr (res, st')
        \<and> needsApproval res = Some True
        \<and> checkpointCalls st' = [CreateCheckpoint ApprovalCkpt]
        \<and> checkpointId res = Some ''cp1''"
    by (auto simp add: searchCall_def)
  from pre turn none first turn2 carried second show ?thesis
    unfolding searchError_def searchCall_def by blast
qed

subsection \<open>The task lock\<close>

lemma only_one: "length (xs @ ys) \<le> 1 \<Longrightarrow> t \<in> set xs \<Longrightarrow> xs = [t] \<and> ys = []"
  by (cases xs; cases ys) auto

lemma only_one': "length (xs @ ys) \<le> 1 \<Longrightarrow> t \<in> set ys \<Longrightarrow> ys = [t] \<and> xs = []"
  by (cases xs; cases ys) auto

lemma orderly_idle: "orderly idle"
  by (simp add: orderly_def idle_def)

lemma orderly_submit: "orderly s \<Longrightarrow> orderly (step s (Submit t))"
  by (auto simp add: orderly_def executeTask_def)

lemma orderly_finish: "orderly s \<Longrightarrow> orderly (step s (Finish t))"
proof (cases "t \<in> set (running s)")
  case True
  assume o: "orderly s"
  then have "running s = [t] \<and> unwinding s = []"
    using True only_one [of "running s" "unwinding s" t] by (simp add: orderly_def)
  with o True show ?thesis by (auto simp add: orderly_def)
next
  case False
  assume "orderly s"
  with False show ?thesis by simp
qed

lemma orderly_release: "orderly s \<Longrightarrow> orderly (step s (Release t))"
proof (cases "t \<in> set (unwinding s)")
  case True
  assume o: "orderly s"
  then have one: "unwinding s = [t] \<and> running s = []"
    using True only_one' [of "running s" "unwinding s" t] by (simp add: orderly_def)
  show ?thesis
  proof (cases "taskQueue s")
    case Nil
    with o one True show ?thesis
      by (auto simp add: orderly_def finallyBlock_def)
  next
    case (Cons nextTask q)
    with o one True show ?thesis
      by (auto simp add: orderly_def finallyBlock_def executeTask_def)
  qed
next
  case False
  assume "orderly s"
  with False show ?thesis by simp
qed

lemma orderly_step: "orderly s \<Longrightarrow> orderly (step s a)"
  by (cases a) (simp_all only: orderly_submit orderly_finish orderly_release)

lemma orderly_foldl: "orderly s \<Longrightarrow> orderly (foldl step s acts)"
  by (induction acts arbitrary: s) (simp_all add: orderly_step)

lemma orderly_schedule: "orderly (schedule acts)"
  unfolding schedule_def using orderly_idle by (rule orderly_foldl)

text \<open>
  C6. Whatever calls of \<open>executeTask\<close>, ends of task bodies and \<open>finally\<close> blocks
  happen, in any order: at most one task is executing, and the flag is set exactly while
  a task is executing or its \<open>finally\<close> block is still to come; the tasks start in the
  order of their submission and the queue holds the rest in that order; a task starts
  only when every task started before it has completed, and once nothing is executing
  or unwinding every submitted task has run to completion. A submission that arrives
  while the flag is set is appended to the queue and does not start; its promise is
  resolved at the step in which its body ends, and the promise of a task that started
  at once at the step of its \<open>finally\<close> block; so, no task being submitted twice, the
  resolved promises are exactly those of the completed tasks that were queued or whose
  \<open>finally\<close> block has run. The \<open>finally\<close> block of a completed task takes the head of
  a non-empty queue and starts it at once, and with an empty queue clears the flag.
\<close>

theorem single_flight_fifo:
  "length (running (schedule acts)) \<le> 1
   \<and> (isTaskRunning (schedule acts)
        \<longleftrightarrow> running (schedule acts) @ unwinding (schedule acts) \<noteq> [])
   \<and> submitted (schedule acts) = started (schedule acts) @ taskQueue (schedule acts)
   \<and> started (schedule acts) = finished (schedule acts) @ running (schedule acts)
   \<and> set (resolved (schedule acts)) \<subseteq> set (finished (schedule acts))
   \<and> (distinct (submitted (schedule acts)) \<longrightarrow>
        set (resolved (schedule acts))
          = {x \<in> set (finished (schedule acts)).
               x \<in> set (deferred (schedule acts)) \<or> x \<notin> set (unwinding (schedule acts))})
   \<and> (\<not> isTaskRunning (schedule acts) \<longrightarrow>
        taskQueue (schedule acts) = [] \<and> finished (schedule acts) = submitted (schedule acts))
   \<and> (isTaskRunning (schedule acts) \<longrightarrow>
        taskQueue (step (schedule acts) (Submit t)) = taskQueue (schedule acts) @ [t]
        \<and> running (step (schedule acts) (Submit t)) = running (schedule acts))
   \<and> (v \<in> set (running (schedule acts)) \<longrightarrow>
        running (step (schedule acts) (Finish v)) = []
        \<and> finished (step (schedule acts) (Finish v)) = finished (schedule acts) @ [v]
        \<and> isTaskRunning (step (schedule acts) (Finish v))
        \<and> resolved (step (schedule acts) (Finish v))
            = (if v \<in> set (deferred (schedule acts)) then resolved (schedule acts) @ [v]
               else resolved (schedule acts)))
   \<and> (u \<in> set (unwinding (schedule acts)) \<longrightarrow>
        resolved (step (schedule acts) (Release u))
          = (if u \<in> set (deferred (schedule acts)) then resolved (schedule acts)
             else resolved (schedule acts) @ [u]))
   \<and> (u \<in> set (unwinding (schedule acts)) \<and> taskQueue (schedule acts) = [] \<longrightarrow>
        \<not> isTaskRunning (step (schedule acts) (Release u))
        \<and> running (step (schedule acts) (Release u)) = [])
   \<and> (u \<in> set (unwinding (schedule acts)) \<and> taskQueue (schedule acts) = n # q \<longrightarrow>
        running (step (schedule acts) (Release u)) = [n]
        \<and> taskQueue (step (schedule acts) (Release u)) = q
        \<and> isTaskRunning (step (schedule acts) (Release u)))"
proof -
  let ?s = "schedule acts"
  have o: "orderly ?s" by (rule orderly_schedule)
  have idle_done: "finished ?s = submitted ?s" if "\<not> isTaskRunning ?s"
    using o that by (simp add: orderly_def)
  have queued: "taskQueue (step ?s (Submit t)) = taskQueue ?s @ [t]
      \<and> running (step ?s (Submit t)) = running ?s" if "isTaskRunning ?s"
    using that by (simp add: executeTask_def)
  have ends: "running (step ?s (Finish v)) = []
      \<and> finished (step ?s (Finish v)) = finished ?s @ [v]
      \<and> isTaskRunning (step ?s (Finish v))
      \<and> resolved (step ?s (Finish v))
          = (if v \<in> set (deferred ?s) then resolved ?s @ [v] else resolved ?s)"
    if h: "v \<in> set (running ?s)"
  proof -
    from o h have "running ?s = [v] \<and> unwinding ?s = [] \<and> isTaskRunning ?s"
      using only_one [of "running ?s" "unwinding ?s" v] by (auto simp add: orderly_def)
    with h show ?thesis by simp
  qed
  have one: "unwinding ?s = [u] \<and> running ?s = []" if "u \<in> set (unwinding ?s)"
    using o that only_one' [of "running ?s" "unwinding ?s" u] by (simp add: orderly_def)
  have returns: "resolved (step ?s (Release u))
      = (if u \<in> set (deferred ?s) then resolved ?s else resolved ?s @ [u])"
    if h: "u \<in> set (unwinding ?s)"
    using h by (cases "taskQueue ?s") (simp_all add: finallyBlock_def executeTask_def)
  have clears: "\<not> isTaskRunning (step ?s (Release u)) \<and> running (step ?s (Release u)) = []"
    if h: "u \<in> set (unwinding ?s) \<and> taskQueue ?s = []"
    using h one by (simp add: finallyBlock_def)
  have nxt: "running (step ?s (Release u)) = [n] \<and> taskQueue (step ?s (Release u)) = q
      \<and> isTaskRunning (step ?s (Release u))"
    if h: "u \<in> set (unwinding ?s) \<and> taskQueue ?s = n # q"
    using h one by (simp add: finallyBlock_def executeTask_def)
  from o have inv: "length (running ?s) \<le> 1
      \<and> (isTaskRunning ?s \<longleftrightarrow> running ?s @ unwinding ?s \<noteq> [])
      \<and> submitted ?s = started ?s @ taskQueue ?s
      \<and> started ?s = finished ?s @ running ?s
      \<and> set (resolved ?s) \<subseteq> set (finished ?s)
      \<and> (distinct (submitted ?s) \<longrightarrow>
           set (resolved ?s)
             = {x \<in> set (finished ?s). x \<in> set (deferred ?s) \<or> x \<notin> set (unwinding ?s)})
      \<and> (\<not> isTaskRunning ?s \<longrightarrow> taskQueue ?s = [])"
    by (simp add: orderly_def)
  from inv idle_done queued ends returns clears nxt show ?thesis by blast
qed

theorem single_flight_fifo_witness:
  "schedule [Submit 1, Submit 2, Submit 3, Finish 1, Release 1]
     = \<lparr>isTaskRunning = True, taskQueue = [3], running = [2], unwinding = [],
        submitted = [1, 2, 3], deferred = [2, 3], started = [1, 2], finished = [1],
        resolved = [1]\<rparr>
   \<and> distinct (submitted (schedule [Submit 1, Submit 2, Submit 3, Finish 1, Release 1]))
   \<and> step (schedule [Submit 1, Submit 2, Submit 3, Finish 1, Release 1]) (Submit 4)
     = \<lparr>isTaskRunning = True, taskQueue = [3, 4], running = [2], unwinding = [],
        submitted = [1, 2, 3, 4], deferred = [2, 3, 4], started = [1, 2], finished = [1],
        resolved = [1]\<rparr>
   \<and> step (schedule [Submit 1, Submit 2, Submit 3, Finish 1, Release 1]) (Finish 2)
     = \<lparr>isTaskRunning = True, taskQueue = [3], running = [], unwinding = [2],
        submitted = [1, 2, 3], deferred = [2, 3], started = [1, 2], finished = [1, 2],
        resolved = [1, 2]\<rparr>
   \<and> step (schedule [Submit 1, Submit 2, Submit 3, Finish 1, Release 1, Finish 2]) (Release 2)
     = \<lparr>isTaskRunning = True, taskQueue = [], running = [3], unwinding = [],
        submitted = [1, 2, 3], deferred = [2, 3], started = [1, 2, 3], finished = [1, 2],
        resolved = [1, 2]\<rparr>
   \<and> schedule [Submit 1, Finish 1]
     = \<lparr>isTaskRunning = True, taskQueue = [], running = [], unwinding = [1],
        submitted = [1], deferred = [], started = [1], finished = [1], resolved = []\<rparr>
   \<and> step (schedule [Submit 1, Finish 1]) (Release 1)
     = \<lparr>isTaskRunning = False, taskQueue = [], running = [], unwinding = [],
        submitted = [1], deferred = [], started = [1], finished = [1], resolved = [1]\<rparr>"
  using single_flight_fifo [of "[Submit 1, Submit 2, Submit 3, Finish 1, Release 1]" 4 2 2 3 "[]"]
    single_flight_fifo [of "[Submit 1, Submit 2, Submit 3, Finish 1, Release 1, Finish 2]"
      4 2 2 3 "[]"]
    single_flight_fifo [of "[Submit 1, Finish 1]" 4 1 1 3 "[]"]
  by (simp add: schedule_def idle_def executeTask_def finallyBlock_def)

subsection \<open>The progress of a result\<close>

lemma finalize_progress_bound:
  "interrupted st \<Longrightarrow> 0 < maxToolCalls p \<or> timeout p \<noteq> 0 \<Longrightarrow>
   \<exists>x. progress (fst (finalize p fin st)) = Fin x \<and> x \<le> 95"
proof -
  assume i: "interrupted st" and z: "0 < maxToolCalls p \<or> timeout p \<noteq> 0"
  show ?thesis
  proof (cases "0 < maxToolCalls p")
    case True
    then obtain x where "roundPct (int (toolCallCount st)) (maxToolCalls p) = Fin x"
      using roundPct_finite [of "maxToolCalls p"] by auto
    with i True show ?thesis
      by (simp add: finalize_def progressPct_def saveCheckpoint_def Let_def)
  next
    case False
    with z obtain x where "roundPct (finElapsed fin) (timeout p) = Fin x"
      using roundPct_finite [of "timeout p"] by auto
    with i False show ?thesis
      by (simp add: finalize_def progressPct_def saveCheckpoint_def Let_def)
  qed
qed

lemma finalize_progress_complete:
  "\<not> interrupted st \<Longrightarrow> progress (fst (finalize p fin st)) = Fin 100"
  by (simp add: finalize_def progressPct_def Let_def)

lemma approval_progress_formula:
  "progress (fst (approvalResponse p fin e st)) = roundPct (finElapsed fin) (timeout p)
   \<and> res_interrupted (fst (approvalResponse p fin e st))"
  by (simp add: approvalResponse_def Let_def)

text \<open>
  C2 holds on the paths that end in the final computation of the progress (an
  interrupted run reports at most 95, a completed one 100), and fails on the approval
  path, where the progress is the rounded share of the timeout that has elapsed, with
  no ceiling: a deep run (timeout 300000 ms) that meets an undecided \<open>firecrawl_search\<close>
  call 299000 ms after its start and builds its response at 300000 ms returns
  \<open>interrupted = true\<close> together with \<open>progress = 100\<close>.
\<close>

theorem approval_progress_uncapped:
  "elapsed nearTimeout \<le> timeout deepGated
   \<and> runAnalysis deepGated (Some []) (Stream [Yield nearTimeout searchCall]) atTimeout
     = Inr (\<lparr>report = [], checkpointId = Some ''cp3'', res_interrupted = True,
             progress = Fin 100, needsApproval = Some True,
             approvalId = Some ''approval_3_def'', toolName = Some ''firecrawl_search'',
             toolArgs = Some (JObj [(''query'', JStr ''crm'')])\<rparr>,
            \<lparr>toolCallCount = 1, hasWarned = False, interrupted = False,
             lastCheckpointId = None, finalOutput = [],
             pendingApprovals = Some
               [(''approval_3_def'',
                 \<lparr>pa_approvalId = ''approval_3_def'', pa_sessionId = ''s1'',
                  pa_toolName = ''firecrawl_search'',
                  pa_toolArgs = JObj [(''query'', JStr ''crm'')], pa_timestamp = 3\<rparr>)],
             effects = [CreateCheckpoint ApprovalCkpt]\<rparr>)"
  by (simp add: run_defs example_defs consume.simps(3))

end
